theory Spec2Isabelle
  imports Complex_Main
begin

section \<open>Numbers and arrays\<close>

text \<open>
  The dashboard computes with JavaScript numbers. They are modelled as exact reals:
  rounding, overflow to an infinity and non-finite inputs are outside the model.
  An array that may have holes (an index past the end was assigned) is a list of
  options, \<open>None\<close> being a hole; \<open>map\<close> and \<open>reduce\<close> skip holes.
\<close>

definition clamp :: "real \<Rightarrow> real \<Rightarrow> real \<Rightarrow> real" where
  "clamp x mn mx = max mn (min mx x)"

text \<open>\<open>a[i] = v\<close>: inside the array the slot is overwritten, past its end the array
  grows to length \<open>i + 1\<close> and the slots in between are holes.\<close>

definition js_set :: "'a option list \<Rightarrow> nat \<Rightarrow> 'a \<Rightarrow> 'a option list" where
  "js_set xs i v =
     (if i < length xs then xs[i := Some v]
      else xs @ replicate (i - length xs) None @ [Some v])"

text \<open>\<open>a.map(f)\<close> on an array with holes: holes stay holes.\<close>

definition js_map :: "('a \<Rightarrow> 'b) \<Rightarrow> 'a option list \<Rightarrow> 'b option list" where
  "js_map f xs = map (map_option f) xs"

text \<open>\<open>a.reduce((x, y) => x + y, 0)\<close>: the callback runs on the present slots only.\<close>

definition js_sum :: "real option list \<Rightarrow> real" where
  "js_sum xs = fold (\<lambda>x acc. case x of None \<Rightarrow> acc | Some y \<Rightarrow> acc + y) xs 0"

text \<open>The values stored in an array, in order, holes left out.\<close>

primrec present :: "'a option list \<Rightarrow> 'a list" where
  "present [] = []"
| "present (x # xs) = (case x of None \<Rightarrow> present xs | Some y \<Rightarrow> y # present xs)"

section \<open>Weight renormalization\<close>

definition normalizeWeightsLongOnly :: "real option list \<Rightarrow> real option list" where
  "normalizeWeightsLongOnly w =
     (let clipped = js_map (\<lambda>x. max 0 x) w;
          s = js_sum clipped
      in if s \<le> 0 then js_map (\<lambda>_. 1 / real (length clipped)) clipped
         else js_map (\<lambda>x. x / s) clipped)"

definition updateWeightWithRenormalization ::
  "real list \<Rightarrow> nat \<Rightarrow> real \<Rightarrow> real option list" where
  "updateWeightWithRenormalization prev idx nextValue =
     (let n = length prev;
          next0 = map Some prev;
          v = clamp nextValue 0 1;
          prevOtherSum =
            fold (\<lambda>(i, x) acc. if i = idx then acc else acc + x) (List.enumerate 0 prev) 0;
          remaining = 1 - v;
          next1 = js_set next0 idx v
      in if n = 1 then [Some 1]
         else if prevOtherSum \<le> 1 / 10 ^ 9 then
           (let share = remaining / (real_of_int (int n - 1))
            in normalizeWeightsLongOnly
                 (fold (\<lambda>i nx. if i \<noteq> idx then nx[i := Some share] else nx) [0..<n] next1))
         else
           (let scale = remaining / prevOtherSum
            in normalizeWeightsLongOnly
                 (fold (\<lambda>i nx. if i = idx then nx else nx[i := Some (prev ! i * scale)])
                    [0..<n] next1)))"

text \<open>The sum of the weights at all indices other than \<open>idx\<close>: the value the
  \<open>reduce\<close> of \<open>prevOtherSum\<close> computes (lemma \<open>fold_other_sum\<close>).\<close>

definition otherSum :: "real list \<Rightarrow> nat \<Rightarrow> real" where
  "otherSum prev idx = (\<Sum>j\<in>{..<length prev} - {idx}. prev ! j)"

text \<open>The array \<open>next\<close> after both assignments: \<open>v\<close> at \<open>idx\<close> and \<open>g i\<close> at every
  other index below the old length (lemmas \<open>fill_shape_keep\<close>, \<open>fill_shape_skip\<close>).\<close>

definition filled :: "real list \<Rightarrow> nat \<Rightarrow> real \<Rightarrow> (nat \<Rightarrow> real) \<Rightarrow> real option list" where
  "filled prev idx v g =
     (if idx < length prev
      then map Some (map (\<lambda>i. if i = idx then v else g i) [0..<length prev])
      else map Some (map g [0..<length prev]) @ replicate (idx - length prev) None @ [Some v])"

text \<open>A sequence of slider edits, \<open>setWeights((prev) => updateWeightWithRenormalization(prev, i, pct))\<close>:
  the array returned by one edit is the input of the next. For an index inside the vector the
  returned array has no holes (lemma \<open>update_dense\<close>), so its stored values are the array.\<close>

fun editSequence :: "real list \<Rightarrow> (nat \<times> real) list \<Rightarrow> real list" where
  "editSequence w [] = w"
| "editSequence w ((idx, v) # es) =
     editSequence (present (updateWeightWithRenormalization w idx v)) es"

section \<open>Series alignment\<close>

text \<open>\<open>Math.min(...lens)\<close>: with no argument the result is \<open>Infinity\<close>, here \<open>None\<close>.\<close>

fun Math_min :: "nat list \<Rightarrow> nat option" where
  "Math_min [] = None"
| "Math_min (x # xs) = Some (fold min xs x)"

text \<open>\<open>s.slice(k)\<close>: a negative \<open>k\<close> counts from the end, and the start is kept inside
  \<open>0 .. s.length\<close>.\<close>

definition js_slice_from :: "'a list \<Rightarrow> int \<Rightarrow> 'a list" where
  "js_slice_from s k =
     (let len = int (length s);
          start = (if k < 0 then max (len + k) 0 else min k len)
      in drop (nat start) s)"

definition alignSeriesToCommonLength :: "real list list \<Rightarrow> real list list" where
  "alignSeriesToCommonLength seriesByAsset =
     (let lens = filter (\<lambda>l. l > 0) (map length seriesByAsset)
      in case Math_min lens of
           None \<Rightarrow> seriesByAsset
         | Some N \<Rightarrow>
             if N < 2 then seriesByAsset
             else map (\<lambda>s. js_slice_from s (int (length s) - int N)) seriesByAsset)"

text \<open>The last \<open>n\<close> entries of a series, in the words of the specification.\<close>

definition lastN :: "nat \<Rightarrow> 'a list \<Rightarrow> 'a list" where
  "lastN n s = rev (take n (rev s))"

section \<open>Efficient frontier: the bucketed envelope\<close>

text \<open>
  A frontier entry has a risk and a return; a cloud point has, in addition, its Sharpe ratio
  and its weight vector.
\<close>

record fpoint =
  risk :: real
  ret :: real

record cpoint = fpoint +
  sharpe :: real
  w :: "real list"

definition bucketCount :: nat where
  "bucketCount = 40"

text \<open>\<open>[...cloud].sort((a, b) => a.risk - b.risk)\<close>: a stable sort, ascending by risk.\<close>

definition sortByRisk :: "cpoint list \<Rightarrow> cpoint list" where
  "sortByRisk cloud = sort_key risk cloud"

text \<open>\<open>sorted[0]?.risk ?? 0\<close> and \<open>sorted[sorted.length - 1]?.risk ?? 1\<close>.\<close>

definition minR :: "cpoint list \<Rightarrow> real" where
  "minR srt = (case srt of [] \<Rightarrow> 0 | p # _ \<Rightarrow> risk p)"

definition maxR :: "cpoint list \<Rightarrow> real" where
  "maxR srt = (if srt = [] then 1 else risk (last srt))"

text \<open>\<open>(maxR - minR) / bucketCount || 1\<close>: a quotient of 0 is replaced by 1.\<close>

definition step :: "cpoint list \<Rightarrow> real" where
  "step srt =
     (let q = (maxR srt - minR srt) / real bucketCount
      in if q = 0 then 1 else q)"

text \<open>The points of bucket \<open>b\<close>: \<open>sorted.filter((p) => p.risk >= lo && p.risk < hi)\<close>.\<close>

definition inBucket :: "cpoint list \<Rightarrow> nat \<Rightarrow> cpoint list" where
  "inBucket srt b =
     (let lo = minR srt + real b * step srt;
          hi = lo + step srt
      in filter (\<lambda>p. risk p \<ge> lo \<and> risk p < hi) srt)"

text \<open>\<open>xs.reduce((best, cur) => (cur.ret > best.ret ? cur : best), init)\<close>.\<close>

definition bestRet :: "cpoint list \<Rightarrow> cpoint \<Rightarrow> cpoint" where
  "bestRet xs init = fold (\<lambda>cur best. if ret cur > ret best then cur else best) xs init"

text \<open>One pass of the bucket loop: an empty bucket is skipped, otherwise its point of
  maximal return is pushed.\<close>

definition bucketStep :: "cpoint list \<Rightarrow> nat \<Rightarrow> fpoint list \<Rightarrow> fpoint list" where
  "bucketStep srt b frontier =
     (case inBucket srt b of
        [] \<Rightarrow> frontier
      | p # ps \<Rightarrow>
          (let best = bestRet (p # ps) p
           in frontier @ [\<lparr>risk = risk best, ret = ret best\<rparr>]))"

text \<open>
  Lines 291 to 305 of \<open>generateEfficientFrontier\<close>, as a function of the cloud that the
  sampling loop above them has built: sort, bucket bounds, and the loop over the buckets.
\<close>

definition frontierOfCloud :: "cpoint list \<Rightarrow> fpoint list" where
  "frontierOfCloud cloud =
     (let srt = sortByRisk cloud
      in fold (bucketStep srt) [0..<bucketCount] [])"

text \<open>The best-Sharpe point, \<open>cloud.reduce(..., cloud[0])\<close>: \<open>undefined\<close> for an empty
  cloud.\<close>

definition bestSharpeOf :: "cpoint list \<Rightarrow> cpoint option" where
  "bestSharpeOf cloud =
     (case cloud of
        [] \<Rightarrow> None
      | p # _ \<Rightarrow> Some (fold (\<lambda>cur best. if sharpe cur > sharpe best then cur else best) cloud p))"

record frontierResult =
  cloud :: "cpoint list"
  frontier :: "fpoint list"
  bestSharpe :: "cpoint option"

text \<open>
  \<open>generateEfficientFrontier\<close> from its sampled cloud on. The cloud is the list of points
  pushed by the sampling loop (one per requested point, with finite risk and return); every
  claim below holds for any such list.
\<close>

definition generateEfficientFrontier :: "cpoint list \<Rightarrow> frontierResult" where
  "generateEfficientFrontier cl =
     \<lparr>cloud = cl, frontier = frontierOfCloud cl, bestSharpe = bestSharpeOf cl\<rparr>"

section \<open>Statistics: mean, covariance, correlation\<close>

text \<open>
  A read outside a dense array gives \<open>undefined\<close>, arithmetic turns \<open>undefined\<close> into
  \<open>NaN\<close>, and every further operation keeps \<open>NaN\<close>. A matrix entry is therefore a
  \<open>real option\<close>, \<open>None\<close> standing for \<open>NaN\<close> (or \<open>undefined\<close> where a number is
  expected).
\<close>

type_synonym num = "real option"

text \<open>\<open>a[i]\<close> on a dense array.\<close>

definition js_nth :: "'a list \<Rightarrow> nat \<Rightarrow> 'a option" where
  "js_nth xs i = (if i < length xs then Some (xs ! i) else None)"

text \<open>\<open>m[i][j] = v\<close> for \<open>i\<close>, \<open>j\<close> inside the matrix.\<close>

definition mat_set :: "'a list list \<Rightarrow> nat \<Rightarrow> nat \<Rightarrow> 'a \<Rightarrow> 'a list list" where
  "mat_set m i j v = m[i := (m ! i)[j := v]]"

definition mean :: "real list \<Rightarrow> real" where
  "mean arr = fold (\<lambda>b a. a + b) arr 0 / max 1 (real (length arr))"

text \<open>The innermost loop of \<open>covarianceMatrix\<close>:
  \<open>acc += (si[t] - mui) * (sj[t] - muj)\<close> for \<open>t = 0 .. T - 1\<close>.\<close>

definition covAcc :: "real list \<Rightarrow> real \<Rightarrow> real list \<Rightarrow> real \<Rightarrow> nat \<Rightarrow> num" where
  "covAcc si mui sj muj T =
     fold (\<lambda>t acc. case (acc, js_nth si t, js_nth sj t) of
                      (Some a, Some x, Some y) \<Rightarrow> Some (a + (x - mui) * (y - muj))
                    | _ \<Rightarrow> None)
       [0..<T] (Some 0)"

definition covarianceMatrix :: "real list list \<Rightarrow> num list list" where
  "covarianceMatrix seriesByAsset =
     (let n = length seriesByAsset;
          T = (case seriesByAsset of [] \<Rightarrow> 0 | s # _ \<Rightarrow> length s);
          mus = map mean seriesByAsset;
          cov = replicate n (replicate n (Some 0))
      in if T < 2 then cov
         else fold (\<lambda>i cov.
                fold (\<lambda>j cov.
                  (let acc = covAcc (seriesByAsset ! i) (mus ! i) (seriesByAsset ! j) (mus ! j) T;
                       c = map_option (\<lambda>a. a / (real T - 1)) acc
                   in mat_set (mat_set cov i j c) j i c))
                  [i..<n] cov)
              [0..<n] cov)"

text \<open>\<open>Math.sqrt(Math.max(0, row[i]))\<close>: \<open>NaN\<close> when \<open>row[i]\<close> is \<open>undefined\<close> or
  \<open>NaN\<close>.\<close>

definition diagFromCov :: "num list list \<Rightarrow> num list" where
  "diagFromCov cov =
     map (\<lambda>(i, row). case js_nth row i of
                         Some (Some x) \<Rightarrow> Some (sqrt (max 0 x))
                       | _ \<Rightarrow> None)
       (List.enumerate 0 cov)"

text \<open>\<open>x || 0\<close> for a number \<open>x\<close>: \<open>NaN\<close>, \<open>undefined\<close> and 0 give 0.\<close>

definition orZero :: "num option \<Rightarrow> real" where
  "orZero x = (case x of Some (Some v) \<Rightarrow> v | _ \<Rightarrow> 0)"

definition correlationFromCov :: "num list list \<Rightarrow> num list list" where
  "correlationFromCov cov =
     (let n = length cov;
          sd = diagFromCov cov;
          corr = replicate n (replicate n (Some 0))
      in fold (\<lambda>i corr.
           fold (\<lambda>j corr.
             (let denom = orZero (js_nth sd i) * orZero (js_nth sd j)
              in mat_set corr i j
                   (if denom > 0
                    then (case js_nth (cov ! i) j of
                            Some (Some c) \<Rightarrow> Some (c / denom)
                          | _ \<Rightarrow> None)
                    else Some 0)))
             [0..<n] corr)
         [0..<n] corr)"

text \<open>
  The unbiased sample covariance of two series over their first \<open>T\<close> periods, in the words
  of the specification: the sum of the products of the deviations from the arithmetic
  means, divided by \<open>T - 1\<close>.
\<close>

definition sampleCovariance :: "nat \<Rightarrow> real list \<Rightarrow> real list \<Rightarrow> real" where
  "sampleCovariance T xs ys =
     (\<Sum>t<T. (xs ! t - sum_list xs / real (length xs)) * (ys ! t - sum_list ys / real (length ys)))
       / (real T - 1)"

text \<open>The matrix with entry \<open>f a b\<close> at row \<open>a\<close>, column \<open>b\<close>.\<close>

definition mat_of :: "nat \<Rightarrow> (nat \<Rightarrow> nat \<Rightarrow> 'a) \<Rightarrow> 'a list list" where
  "mat_of n f = map (\<lambda>a. map (\<lambda>b. f a b) [0..<n]) [0..<n]"

text \<open>The value \<open>c\<close> that \<open>covarianceMatrix\<close> stores at \<open>(i, j)\<close> and \<open>(j, i)\<close> for \<open>i \<le> j\<close>.\<close>

definition covEntry :: "real list list \<Rightarrow> nat \<Rightarrow> nat \<Rightarrow> nat \<Rightarrow> num" where
  "covEntry ss T i j =
     map_option (\<lambda>a. a / (real T - 1))
       (covAcc (ss ! i) (mean (ss ! i)) (ss ! j) (mean (ss ! j)) T)"

text \<open>\<open>(sd[i] || 0)\<close> in \<open>correlationFromCov\<close>.\<close>

definition sdOf :: "num list list \<Rightarrow> nat \<Rightarrow> real" where
  "sdOf cov i = orZero (js_nth (diagFromCov cov) i)"

text \<open>The value that \<open>correlationFromCov\<close> stores at \<open>(i, j)\<close>.\<close>

definition corrEntry :: "num list list \<Rightarrow> nat \<Rightarrow> nat \<Rightarrow> num" where
  "corrEntry cov i j =
     (if sdOf cov i * sdOf cov j > 0
      then (case js_nth (cov ! i) j of
              Some (Some c) \<Rightarrow> Some (c / (sdOf cov i * sdOf cov j))
            | _ \<Rightarrow> None)
      else Some 0)"

text \<open>The sum of the products of the deviations of series \<open>i\<close> and \<open>j\<close> over the first
  \<open>T\<close> periods, with the means that \<open>mean\<close> computes.\<close>

definition devSum :: "real list list \<Rightarrow> nat \<Rightarrow> nat \<Rightarrow> nat \<Rightarrow> real" where
  "devSum ss T i j = (\<Sum>t<T. (ss ! i ! t - mean (ss ! i)) * (ss ! j ! t - mean (ss ! j)))"

text \<open>\<open>seriesByAsset[0]?.length ?? 0\<close>.\<close>

definition periods :: "real list list \<Rightarrow> nat" where
  "periods ss = (case ss of [] \<Rightarrow> 0 | s # _ \<Rightarrow> length s)"

section \<open>CSV ingest\<close>

text \<open>
  A text is a list of code units; the model covers code units below 256. \<open>Number(s)\<close> and
  \<open>a.localeCompare(b)\<close> are built into the language: the parser takes them as parameters,
  \<open>toNumber s\<close> being \<open>Some x\<close> when \<open>Number(s)\<close> is the finite number \<open>x\<close> and \<open>None\<close> when
  it is \<open>NaN\<close> or infinite, and \<open>le a b\<close> standing for \<open>a.localeCompare(b) <= 0\<close>.
\<close>

datatype csv_error = TooShort | MissingColumns | TooFewRecords | TooFewReturns

record row =
  date :: string
  close :: real

text \<open>\<open>s.split(c)\<close> for a one-character separator: never empty, \<open>[""]\<close> for the empty
  string.\<close>

fun splitOn :: "char \<Rightarrow> string \<Rightarrow> string list" where
  "splitOn c [] = [[]]"
| "splitOn c (x # xs) =
     (if x = c then [] # splitOn c xs
      else (case splitOn c xs of
              [] \<Rightarrow> [[x]]
            | p # ps \<Rightarrow> (x # p) # ps))"

text \<open>\<open>text.split(/\r?\n/)\<close>: the text is cut at every line feed, and a carriage return
  right before the line feed belongs to the separator.\<close>

definition stripCR :: "string \<Rightarrow> string" where
  "stripCR s = (if s \<noteq> [] \<and> last s = CHR 0x0D then butlast s else s)"

definition splitLines :: "string \<Rightarrow> string list" where
  "splitLines text =
     (let ps = splitOn (CHR 0x0A) text
      in map stripCR (butlast ps) @ [last ps])"

text \<open>White space and line terminators below 256, as \<open>trim\<close> removes them.\<close>

definition isSpace :: "char \<Rightarrow> bool" where
  "isSpace c \<longleftrightarrow> c \<in> {CHR 0x09, CHR 0x0A, CHR 0x0B, CHR 0x0C, CHR 0x0D, CHR 0x20, CHR 0xA0}"

definition trim :: "string \<Rightarrow> string" where
  "trim s = rev (dropWhile isSpace (rev (dropWhile isSpace s)))"

text \<open>\<open>toLowerCase\<close> on code units below 256: the letters A to Z and the accented capitals
  of Latin-1 move up by 32.\<close>

definition toLowerChar :: "char \<Rightarrow> char" where
  "toLowerChar c =
     (let k = (of_char c :: nat)
      in if (65 \<le> k \<and> k \<le> 90) \<or> (192 \<le> k \<and> k \<le> 222 \<and> k \<noteq> 215)
         then char_of (k + 32) else c)"

definition toLowerCase :: "string \<Rightarrow> string" where
  "toLowerCase s = map toLowerChar s"

text \<open>\<open>xs.indexOf(x)\<close>: the first index, \<open>None\<close> for \<open>-1\<close>.\<close>

fun indexOf :: "'a list \<Rightarrow> 'a \<Rightarrow> nat option" where
  "indexOf [] x = None"
| "indexOf (y # ys) x = (if y = x then Some 0 else map_option Suc (indexOf ys x))"

text \<open>The non-blank, trimmed lines of the text.\<close>

definition csvLines :: "string \<Rightarrow> string list" where
  "csvLines text = filter (\<lambda>l. l \<noteq> []) (map trim (splitLines text))"

definition csvHeader :: "string list \<Rightarrow> string list" where
  "csvHeader lines = map (\<lambda>s. toLowerCase (trim s)) (splitOn (CHR '','') (hd lines))"

text \<open>One pass of the loop over the data lines: a line whose date cell is missing or empty,
  or whose close cell is missing or not a finite number, is skipped.\<close>

definition rowOfLine ::
  "(string \<Rightarrow> real option) \<Rightarrow> nat \<Rightarrow> nat \<Rightarrow> string \<Rightarrow> row option" where
  "rowOfLine toNumber dateIdx closeIdx line =
     (let cols = map trim (splitOn (CHR '','') line)
      in case js_nth cols dateIdx of
           None \<Rightarrow> None
         | Some d \<Rightarrow>
             if d = [] then None
             else (case js_nth cols closeIdx of
                     None \<Rightarrow> None
                   | Some s \<Rightarrow>
                       (case toNumber s of
                          None \<Rightarrow> None
                        | Some x \<Rightarrow> Some \<lparr>date = d, close = x\<rparr>)))"

definition validRows ::
  "(string \<Rightarrow> real option) \<Rightarrow> nat \<Rightarrow> nat \<Rightarrow> string list \<Rightarrow> row list" where
  "validRows toNumber dateIdx closeIdx dataLines =
     fold (\<lambda>line rows. case rowOfLine toNumber dateIdx closeIdx line of
                          None \<Rightarrow> rows
                        | Some r \<Rightarrow> rows @ [r])
       dataLines []"

text \<open>\<open>rows.sort((a, b) => a.date.localeCompare(b.date))\<close>: a stable sort.\<close>

fun insertRow :: "(string \<Rightarrow> string \<Rightarrow> bool) \<Rightarrow> row \<Rightarrow> row list \<Rightarrow> row list" where
  "insertRow le r [] = [r]"
| "insertRow le r (x # xs) =
     (if le (date r) (date x) then r # x # xs else x # insertRow le r xs)"

definition sortRows :: "(string \<Rightarrow> string \<Rightarrow> bool) \<Rightarrow> row list \<Rightarrow> row list" where
  "sortRows le rows = foldr (insertRow le) rows []"

text \<open>The loop over consecutive rows: a pair whose earlier close is not positive gives no
  return.\<close>

fun closeReturns :: "row list \<Rightarrow> real list" where
  "closeReturns (p # c # rest) =
     (if close p \<le> 0 then closeReturns (c # rest)
      else (close c / close p - 1) # closeReturns (c # rest))"
| "closeReturns _ = []"

definition parseCsvOhlcvCloseReturns ::
  "(string \<Rightarrow> real option) \<Rightarrow> (string \<Rightarrow> string \<Rightarrow> bool) \<Rightarrow> string \<Rightarrow> csv_error + real list" where
  "parseCsvOhlcvCloseReturns toNumber le text =
     (let lines = csvLines text
      in if length lines < 3 then Inl TooShort
         else
           (let header = csvHeader lines
            in case (indexOf header ''date'', indexOf header ''close'') of
                 (Some dateIdx, Some closeIdx) \<Rightarrow>
                   (let rows = validRows toNumber dateIdx closeIdx (tl lines)
                    in if length rows < 2 then Inl TooFewRecords
                       else
                         (let rets = closeReturns (sortRows le rows)
                          in if length rets < 2 then Inl TooFewReturns else Inr rets))
               | _ \<Rightarrow> Inl MissingColumns))"

text \<open>Two instances of the parameters, to run the parser on examples. \<open>digitsNumber\<close>
  agrees with \<open>Number\<close> on strings of decimal digits (the empty string is 0) and on
  strings without any digit or white space, such as \<open>"x"\<close>, which are \<open>NaN\<close>; the examples
  use no other cells. \<open>codeUnitLe\<close> is the order of code units.\<close>

definition digitsNumber :: "string \<Rightarrow> real option" where
  "digitsNumber s =
     (if list_all (\<lambda>c. 48 \<le> (of_char c :: nat) \<and> (of_char c :: nat) \<le> 57) s
      then Some (real (fold (\<lambda>c n. 10 * n + ((of_char c :: nat) - 48)) s 0))
      else None)"

fun codeUnitLe :: "string \<Rightarrow> string \<Rightarrow> bool" where
  "codeUnitLe [] _ = True"
| "codeUnitLe (x # xs) [] = False"
| "codeUnitLe (x # xs) (y # ys) =
     ((of_char x :: nat) < of_char y \<or> (x = y \<and> codeUnitLe xs ys))"

section \<open>Weight renormalization: proofs\<close>

lemma present_map_Some [simp]: "present (map Some xs) = xs"
  by (induction xs) auto

lemma present_map_Some_comp [simp]: "present (map (Some \<circ> f) xs) = map f xs"
  by (induction xs) auto

lemma present_append [simp]: "present (xs @ ys) = present xs @ present ys"
  by (induction xs) (auto split: option.splits)

lemma present_replicate_None [simp]: "present (replicate k None) = []"
  by (induction k) auto

lemma present_js_map [simp]: "present (js_map f xs) = map f (present xs)"
  by (induction xs) (auto simp: js_map_def split: option.splits)

lemma js_map_map_Some: "js_map f (map Some xs) = map Some (map f xs)"
  by (simp add: js_map_def)

lemma fold_js_sum:
  "fold (\<lambda>x acc. case x of None \<Rightarrow> acc | Some y \<Rightarrow> acc + y) xs a = a + sum_list (present xs)"
  by (induction xs arbitrary: a) (auto split: option.splits simp: algebra_simps)

lemma js_sum_present: "js_sum xs = sum_list (present xs)"
  by (simp add: js_sum_def fold_js_sum)

lemma fold_other_sum:
  "fold (\<lambda>(i, x) acc. if i = idx then acc else acc + x) (List.enumerate 0 xs) (0::real)
     = (\<Sum>j\<in>{..<length xs} - {idx}. xs ! j)"
proof (induction xs rule: rev_induct)
  case Nil
  show ?case by simp
next
  case (snoc x xs)
  have split: "{..<Suc (length xs)} - {idx} =
      (if idx = length xs then {..<length xs} - {idx} else insert (length xs) ({..<length xs} - {idx}))"
    by auto
  have "(\<Sum>j\<in>{..<length xs} - {idx}. (xs @ [x]) ! j) = (\<Sum>j\<in>{..<length xs} - {idx}. xs ! j)"
    by (rule sum.cong) (auto simp: nth_append)
  moreover have "(\<Sum>j<length xs. (xs @ [x]) ! j) = (\<Sum>j<length xs. xs ! j)"
    by (rule sum.cong) (auto simp: nth_append)
  ultimately show ?case using snoc
    by (auto simp: enumerate_append_eq split add.commute)
qed

lemma fold_fill_keep:
  "k \<le> length xs \<Longrightarrow>
   fold (\<lambda>i nx. if i \<noteq> idx then nx[i := Some (g i)] else nx) [0..<k] xs
     = map (\<lambda>i. if i < k \<and> i \<noteq> idx then Some (g i) else xs ! i) [0..<length xs]"
proof (induction k)
  case 0
  show ?case by (simp add: map_nth)
next
  case (Suc k)
  then show ?case
    by (auto intro!: nth_equalityI simp: nth_list_update less_Suc_eq)
qed

lemma fold_fill_skip:
  "k \<le> length xs \<Longrightarrow>
   fold (\<lambda>i nx. if i = idx then nx else nx[i := Some (g i)]) [0..<k] xs
     = map (\<lambda>i. if i < k \<and> i \<noteq> idx then Some (g i) else xs ! i) [0..<length xs]"
proof (induction k)
  case 0
  show ?case by (simp add: map_nth)
next
  case (Suc k)
  then show ?case
    by (auto intro!: nth_equalityI simp: nth_list_update less_Suc_eq)
qed


lemma fill_shape_keep:
  "fold (\<lambda>i nx. if i \<noteq> idx then nx[i := Some (g i)] else nx) [0..<length prev]
     (js_set (map Some prev) idx v)
   = (if idx < length prev
      then map Some (map (\<lambda>i. if i = idx then v else g i) [0..<length prev])
      else map Some (map g [0..<length prev]) @ replicate (idx - length prev) None @ [Some v])"
proof (cases "idx < length prev")
  case True
  then show ?thesis
    by (auto simp: js_set_def fold_fill_keep intro!: nth_equalityI)
next
  case False
  then show ?thesis
    by (auto simp: js_set_def fold_fill_keep nth_append intro!: nth_equalityI)
qed

lemma fill_shape_skip:
  "fold (\<lambda>i nx. if i = idx then nx else nx[i := Some (g i)]) [0..<length prev]
     (js_set (map Some prev) idx v)
   = (if idx < length prev
      then map Some (map (\<lambda>i. if i = idx then v else g i) [0..<length prev])
      else map Some (map g [0..<length prev]) @ replicate (idx - length prev) None @ [Some v])"
proof (cases "idx < length prev")
  case True
  then show ?thesis
    by (auto simp: js_set_def fold_fill_skip intro!: nth_equalityI)
next
  case False
  then show ?thesis
    by (auto simp: js_set_def fold_fill_skip nth_append intro!: nth_equalityI)
qed

lemma sum_list_map_divide:
  "sum_list (map (\<lambda>x. f x / c) xs) = sum_list (map f xs) / (c::real)"
  by (induction xs) (auto simp: add_divide_distrib)

lemma sum_list_clip_ge: "sum_list xs \<le> sum_list (map (\<lambda>x. max 0 x) xs)" for xs :: "real list"
  by (induction xs) auto

lemma sum_list_clip_nonneg: "0 \<le> sum_list (map (\<lambda>x. max 0 x) xs)" for xs :: "real list"
  by (induction xs) auto

lemma normalize_present_pos:
  assumes "0 < sum_list (map (\<lambda>x. max 0 x) (present arr))"
  shows "present (normalizeWeightsLongOnly arr)
           = map (\<lambda>x. max 0 x / sum_list (map (\<lambda>x. max 0 x) (present arr))) (present arr)"
  using assms by (simp add: normalizeWeightsLongOnly_def Let_def js_sum_present o_def)

lemma normalize_pos_ok:
  assumes "0 < sum_list (map (\<lambda>x. max 0 x) (present arr))"
  shows "(\<forall>x\<in>set (present (normalizeWeightsLongOnly arr)). 0 \<le> x) \<and>
         sum_list (present (normalizeWeightsLongOnly arr)) = 1"
proof -
  let ?s = "sum_list (map (\<lambda>x. max 0 x) (present arr))"
  have "sum_list (map (\<lambda>x. max 0 x / ?s) (present arr)) = ?s / ?s"
    by (rule sum_list_map_divide)
  with assms show ?thesis
    by (auto simp: normalize_present_pos)
qed


lemma clamp_unit: "0 \<le> clamp x 0 1 \<and> clamp x 0 1 \<le> 1"
  by (simp add: clamp_def)

lemma clamp_id: "0 \<le> x \<Longrightarrow> x \<le> 1 \<Longrightarrow> clamp x 0 1 = x"
  by (simp add: clamp_def)

lemma update_unfold:
  assumes "length prev \<noteq> 1"
  shows "updateWeightWithRenormalization prev idx nv =
     normalizeWeightsLongOnly
       (filled prev idx (clamp nv 0 1)
          (if otherSum prev idx \<le> 1 / 10 ^ 9
           then (\<lambda>_. (1 - clamp nv 0 1) / (real (length prev) - 1))
           else (\<lambda>i. prev ! i * ((1 - clamp nv 0 1) / otherSum prev idx))))"
  using assms
  by (simp add: updateWeightWithRenormalization_def Let_def fold_other_sum
        otherSum_def [symmetric] fill_shape_keep fill_shape_skip filled_def)

lemma sum_present_filled:
  "sum_list (present (filled prev idx v g)) = v + (\<Sum>i\<in>{..<length prev} - {idx}. g i)"
proof (cases "idx < length prev")
  case True
  have "sum_list (map (\<lambda>i. if i = idx then v else g i) [0..<length prev])
          = (\<Sum>i<length prev. if i = idx then v else g i)"
    by (simp add: interv_sum_list_conv_sum_set_nat atLeast_upt)
  also have "\<dots> = v + (\<Sum>i\<in>{..<length prev} - {idx}. if i = idx then v else g i)"
    using True by (subst sum.remove [of _ idx]) auto
  also have "(\<Sum>i\<in>{..<length prev} - {idx}. if i = idx then v else g i)
          = (\<Sum>i\<in>{..<length prev} - {idx}. g i)"
    by (rule sum.cong) auto
  finally show ?thesis using True by (simp add: filled_def)
next
  case False
  then have "{..<length prev} - {idx} = {..<length prev}" by auto
  with False show ?thesis
    by (simp add: filled_def interv_sum_list_conv_sum_set_nat atLeast_upt)
qed

lemma card_others: "card ({..<n} - {idx}) = (if idx < n then n - 1 else n)"
  by (auto simp: card_Diff_singleton_if)

lemma raw_sum_uniform:
  assumes "2 \<le> length prev" "0 \<le> v" "v \<le> 1"
  shows "1 \<le> sum_list (present (filled prev idx v (\<lambda>_. (1 - v) / (real (length prev) - 1))))"
proof (cases "idx < length prev")
  case True
  with assms have "real (length prev - 1) * ((1 - v) / (real (length prev) - 1)) = 1 - v"
    by (simp add: of_nat_diff)
  with True show ?thesis by (simp add: sum_present_filled card_others)
next
  case False
  from assms have "real (length prev) * (1 - v) \<ge> (real (length prev) - 1) * (1 - v)"
    by (intro mult_right_mono) auto
  with assms have "1 - v \<le> real (length prev) * (1 - v) / (real (length prev) - 1)"
    by (simp add: pos_le_divide_eq mult.commute)
  with False show ?thesis by (simp add: sum_present_filled card_others)
qed

lemma raw_sum_uniform_eq:
  assumes "2 \<le> length prev" "idx < length prev"
  shows "sum_list (present (filled prev idx v (\<lambda>_. (1 - v) / (real (length prev) - 1)))) = 1"
proof -
  from assms have "real (length prev - 1) * ((1 - v) / (real (length prev) - 1)) = 1 - v"
    by (simp add: of_nat_diff)
  with assms show ?thesis by (simp add: sum_present_filled card_others)
qed

lemma raw_sum_scaled:
  assumes "otherSum prev idx \<noteq> 0"
  shows "sum_list (present (filled prev idx v (\<lambda>i. prev ! i * ((1 - v) / otherSum prev idx)))) = 1"
proof -
  have "(\<Sum>i\<in>{..<length prev} - {idx}. prev ! i * ((1 - v) / otherSum prev idx))
          = otherSum prev idx * ((1 - v) / otherSum prev idx)"
    by (simp only: otherSum_def sum_distrib_right)
  with assms show ?thesis by (simp add: sum_present_filled)
qed

lemma update_step_ok:
  assumes "prev \<noteq> []"
  shows "(\<forall>x\<in>set (present (updateWeightWithRenormalization prev idx nv)). 0 \<le> x) \<and>
         sum_list (present (updateWeightWithRenormalization prev idx nv)) = 1"
proof (cases "length prev = 1")
  case True
  then show ?thesis by (simp add: updateWeightWithRenormalization_def)
next
  case False
  with assms have n2: "2 \<le> length prev"
    by (cases prev) (auto simp: Suc_le_eq)
  let ?v = "clamp nv 0 1"
  let ?g = "if otherSum prev idx \<le> 1 / 10 ^ 9
           then (\<lambda>_. (1 - ?v) / (real (length prev) - 1))
           else (\<lambda>i. prev ! i * ((1 - ?v) / otherSum prev idx))"
  have "1 \<le> sum_list (present (filled prev idx ?v ?g))"
  proof (cases "otherSum prev idx \<le> 1 / 10 ^ 9")
    case True
    then show ?thesis using raw_sum_uniform [OF n2, of ?v idx] clamp_unit [of nv] by simp
  next
    case False
    then have "otherSum prev idx \<noteq> 0" by auto
    from raw_sum_scaled [OF this, of ?v] False show ?thesis by simp
  qed
  also have "\<dots> \<le> sum_list (map (\<lambda>x. max 0 x) (present (filled prev idx ?v ?g)))"
    by (rule sum_list_clip_ge)
  finally have "0 < sum_list (map (\<lambda>x. max 0 x) (present (filled prev idx ?v ?g)))" by simp
  then show ?thesis
    unfolding update_unfold [OF False] by (rule normalize_pos_ok)
qed


lemma normalize_dense:
  "normalizeWeightsLongOnly (map Some xs) =
     map Some (if sum_list (map (\<lambda>x. max 0 x) xs) \<le> 0
               then map (\<lambda>_. 1 / real (length xs)) xs
               else map (\<lambda>x. max 0 x / sum_list (map (\<lambda>x. max 0 x) xs)) xs)"
  by (simp add: normalizeWeightsLongOnly_def Let_def js_sum_present js_map_map_Some
        del: map_map) (simp add: o_def)

lemma normalize_id:
  assumes "\<forall>x\<in>set xs. 0 \<le> x" "sum_list xs = 1"
  shows "normalizeWeightsLongOnly (map Some xs) = map Some xs"
proof -
  from assms(1) have "map (\<lambda>x. max 0 x) xs = xs"
    by (intro map_idI) (simp add: max_def)
  with assms show ?thesis
    by (simp add: normalize_dense)
qed

lemma filled_dense:
  "idx < length prev \<Longrightarrow>
   filled prev idx v g = map Some (map (\<lambda>i. if i = idx then v else g i) [0..<length prev])"
  by (simp add: filled_def)

lemma update_dense:
  assumes "idx < length prev"
  shows "\<exists>ws. updateWeightWithRenormalization prev idx nv = map Some ws \<and>
              length ws = length prev"
proof (cases "length prev = 1")
  case True
  then show ?thesis
    by (auto simp: updateWeightWithRenormalization_def intro!: exI [of _ "[1]"])
next
  case False
  show ?thesis
    unfolding update_unfold [OF False] filled_dense [OF assms] normalize_dense
    by (rule exI, rule conjI, rule refl) simp
qed

lemma length_present_update:
  "idx < length prev \<Longrightarrow>
   length (present (updateWeightWithRenormalization prev idx nv)) = length prev"
  using update_dense [of idx prev nv] by auto

lemma editSequence_ok:
  assumes "prev \<noteq> []" "edits \<noteq> []" "\<forall>e\<in>set edits. fst e < length prev"
  shows "length (editSequence prev edits) = length prev \<and>
         (\<forall>x\<in>set (editSequence prev edits). 0 \<le> x) \<and>
         sum_list (editSequence prev edits) = 1"
  using assms
proof (induction edits arbitrary: prev)
  case Nil
  then show ?case by simp
next
  case (Cons e es)
  obtain idx v where e: "e = (idx, v)" by (cases e)
  let ?nw = "present (updateWeightWithRenormalization prev idx v)"
  from Cons.prems e have idx: "idx < length prev" by simp
  then have len: "length ?nw = length prev" by (rule length_present_update)
  with Cons.prems(1) have ne: "?nw \<noteq> []" by auto
  show ?case
  proof (cases "es = []")
    case True
    with e len update_step_ok [OF Cons.prems(1), of idx v] show ?thesis by simp
  next
    case False
    from Cons.prems(3) len have "\<forall>e\<in>set es. fst e < length ?nw" by simp
    from Cons.IH [OF ne False this] e len show ?thesis by simp
  qed
qed

lemma update_scaled:
  assumes idx: "idx < length prev"
    and nonneg: "\<forall>i<length prev. i \<noteq> idx \<longrightarrow> 0 \<le> prev ! i"
    and base: "1 / 10 ^ 9 < otherSum prev idx"
  shows "updateWeightWithRenormalization prev idx nv =
           map Some (map (\<lambda>i. if i = idx then clamp nv 0 1
                               else prev ! i * ((1 - clamp nv 0 1) / otherSum prev idx))
                      [0..<length prev])"
proof -
  let ?v = "clamp nv 0 1"
  let ?g = "\<lambda>i. prev ! i * ((1 - ?v) / otherSum prev idx)"
  let ?xs = "map (\<lambda>i. if i = idx then ?v else ?g i) [0..<length prev]"
  from base have pos: "0 < otherSum prev idx"
    by (rule less_trans [rotated]) simp
  have n1: "length prev \<noteq> 1"
  proof
    assume "length prev = 1"
    with idx have "{..<length prev} - {idx} = {}" by auto
    with pos show False by (simp add: otherSum_def)
  qed
  have sc: "0 \<le> (1 - ?v) / otherSum prev idx"
    using pos clamp_unit [of nv] by simp
  have "\<forall>x\<in>set ?xs. 0 \<le> x"
    using nonneg sc clamp_unit [of nv]
    by (auto intro!: mult_nonneg_nonneg simp del: times_divide_eq_right)
  moreover have "sum_list ?xs = 1"
  proof -
    have "sum_list ?xs = sum_list (present (filled prev idx ?v ?g))"
      by (simp only: filled_dense [OF idx] present_map_Some)
    also have "\<dots> = 1"
      using pos by (intro raw_sum_scaled) simp
    finally show ?thesis .
  qed
  ultimately have norm: "normalizeWeightsLongOnly (map Some ?xs) = map Some ?xs"
    by (rule normalize_id)
  from base have "(otherSum prev idx \<le> 1 / 10 ^ 9) = False" by simp
  then have "updateWeightWithRenormalization prev idx nv
               = normalizeWeightsLongOnly (filled prev idx ?v ?g)"
    by (simp only: update_unfold [OF n1] if_False)
  with norm show ?thesis
    by (simp only: filled_dense [OF idx])
qed

lemma update_uniform:
  assumes idx: "idx < length prev" and n2: "2 \<le> length prev"
    and base: "otherSum prev idx \<le> 1 / 10 ^ 9"
  shows "updateWeightWithRenormalization prev idx nv =
           map Some (map (\<lambda>i. if i = idx then clamp nv 0 1
                               else (1 - clamp nv 0 1) / (real (length prev) - 1))
                      [0..<length prev])"
proof -
  let ?v = "clamp nv 0 1"
  let ?g = "\<lambda>i::nat. (1 - ?v) / (real (length prev) - 1)"
  let ?xs = "map (\<lambda>i. if i = idx then ?v else ?g i) [0..<length prev]"
  from n2 have n1: "length prev \<noteq> 1" by simp
  have sc: "0 \<le> (1 - ?v) / (real (length prev) - 1)"
    using n2 clamp_unit [of nv] by simp
  have "\<forall>x\<in>set ?xs. 0 \<le> x"
    using sc clamp_unit [of nv] by auto
  moreover have "sum_list ?xs = 1"
  proof -
    have "sum_list ?xs = sum_list (present (filled prev idx ?v ?g))"
      by (simp only: filled_dense [OF idx] present_map_Some)
    also have "\<dots> = 1"
      by (rule raw_sum_uniform_eq [OF n2 idx])
    finally show ?thesis .
  qed
  ultimately have norm: "normalizeWeightsLongOnly (map Some ?xs) = map Some ?xs"
    by (rule normalize_id)
  from base have "(otherSum prev idx \<le> 1 / 10 ^ 9) = True" by simp
  then have "updateWeightWithRenormalization prev idx nv
               = normalizeWeightsLongOnly (filled prev idx ?v ?g)"
    by (simp only: update_unfold [OF n1] if_True)
  with norm show ?thesis
    by (simp only: filled_dense [OF idx])
qed

lemma otherSum_upt:
  "otherSum prev idx = sum_list (map (\<lambda>i. if i = idx then 0 else prev ! i) [0..<length prev])"
proof -
  have "(\<Sum>i<length prev. if i = idx then 0 else prev ! i)
          = (\<Sum>i\<in>{..<length prev} - {idx}. if i = idx then 0 else prev ! i)"
    by (rule sum.mono_neutral_right) auto
  also have "\<dots> = otherSum prev idx"
    unfolding otherSum_def by (rule sum.cong) auto
  finally show ?thesis
    by (simp add: interv_sum_list_conv_sum_set_nat atLeast_upt)
qed

text \<open>
  Claim C1. For every non-empty weight vector, every index and every requested value, the
  values stored in the array returned by \<open>updateWeightWithRenormalization\<close> are all
  \<open>\<ge> 0\<close> and sum to 1 (in exact arithmetic, hence within \<open>1e-6\<close>); for an index inside the
  vector the result has the same length and no holes; and after any non-empty sequence of
  such edits at indices inside the vector the weight vector again has all entries \<open>\<ge> 0\<close>
  and sum within \<open>1e-6\<close> of 1.
\<close>

theorem weight_invariant:
  assumes "prev \<noteq> []"
  shows "(\<forall>x\<in>set (present (updateWeightWithRenormalization prev idx nv)). 0 \<le> x) \<and>
         \<bar>sum_list (present (updateWeightWithRenormalization prev idx nv)) - 1\<bar> \<le> 1 / 10 ^ 6 \<and>
         (idx < length prev \<longrightarrow>
            updateWeightWithRenormalization prev idx nv
              = map Some (present (updateWeightWithRenormalization prev idx nv)) \<and>
            length (updateWeightWithRenormalization prev idx nv) = length prev) \<and>
         (edits \<noteq> [] \<and> (\<forall>e\<in>set edits. fst e < length prev) \<longrightarrow>
            length (editSequence prev edits) = length prev \<and>
            (\<forall>x\<in>set (editSequence prev edits). 0 \<le> x) \<and>
            \<bar>sum_list (editSequence prev edits) - 1\<bar> \<le> 1 / 10 ^ 6)"
proof (intro conjI impI)
  show "\<forall>x\<in>set (present (updateWeightWithRenormalization prev idx nv)). 0 \<le> x"
    using update_step_ok [OF assms] by blast
  show "\<bar>sum_list (present (updateWeightWithRenormalization prev idx nv)) - 1\<bar> \<le> 1 / 10 ^ 6"
    using update_step_ok [OF assms, of idx nv] by simp
next
  assume "idx < length prev"
  from update_dense [OF this, of nv]
  obtain ws where ws: "updateWeightWithRenormalization prev idx nv = map Some ws"
    "length ws = length prev" by blast
  then show "updateWeightWithRenormalization prev idx nv
              = map Some (present (updateWeightWithRenormalization prev idx nv))"
    by simp
  from ws show "length (updateWeightWithRenormalization prev idx nv) = length prev"
    by simp
next
  assume e: "edits \<noteq> [] \<and> (\<forall>e\<in>set edits. fst e < length prev)"
  then have ok: "length (editSequence prev edits) = length prev \<and>
         (\<forall>x\<in>set (editSequence prev edits). 0 \<le> x) \<and>
         sum_list (editSequence prev edits) = 1"
    using editSequence_ok [OF assms, of edits] by blast
  from ok show "length (editSequence prev edits) = length prev" by blast
  from ok show "\<forall>x\<in>set (editSequence prev edits). 0 \<le> x" by blast
  from ok show "\<bar>sum_list (editSequence prev edits) - 1\<bar> \<le> 1 / 10 ^ 6" by simp
qed

theorem weight_invariant_witness:
  "[1/2, 3/10, 1/5] \<noteq> ([] :: real list) \<and>
   list_all (\<lambda>x. 0 \<le> x) (present (updateWeightWithRenormalization [1/2, 3/10, 1/5] 2 (7/10))) \<and>
   \<bar>sum_list (present (updateWeightWithRenormalization [1/2, 3/10, 1/5] 2 (7/10))) - 1\<bar>
      \<le> 1 / 10 ^ 6 \<and>
   length (updateWeightWithRenormalization [1/2, 3/10, 1/5] 2 (7/10)) = 3 \<and>
   list_all (\<lambda>e. fst e < length [1/2, 3/10, 1/5 :: real]) [(2, 7/10), (0, 1), (1, 1/4 :: real)] \<and>
   list_all (\<lambda>x. 0 \<le> x) (editSequence [1/2, 3/10, 1/5] [(2, 7/10), (0, 1), (1, 1/4)]) \<and>
   \<bar>sum_list (editSequence [1/2, 3/10, 1/5] [(2, 7/10), (0, 1), (1, 1/4)]) - 1\<bar> \<le> 1 / 10 ^ 6"
proof -
  have ne: "[1/2, 3/10, 1/5] \<noteq> ([] :: real list)" by simp
  from weight_invariant [OF ne, of 2 "7/10" "[(2, 7/10), (0, 1), (1, 1/4)]"]
  show ?thesis by (simp add: list_all_iff)
qed

text \<open>
  Claim C6. For every weight vector (entries \<open>\<ge> 0\<close>) whose other-index sum exceeds the
  threshold \<open>1e-9\<close>, and every index inside it, the result holds the requested value
  (clamped to \<open>[0,1]\<close>, so the value itself when it lies in \<open>[0,1]\<close>) at the edited index
  and \<open>prev[i] * (1 - v) / otherSum\<close> at every other index, and sums to 1. In particular
  \<open>[0.5, 0.3, 0.2]\<close> with index 0 set to 0.8 gives \<open>[0.8, 0.12, 0.08]\<close>.
\<close>

theorem renormalization_proportional:
  assumes "idx < length prev" and "\<forall>x\<in>set prev. 0 \<le> x"
    and "1 / 10 ^ 9 < otherSum prev idx"
  shows "updateWeightWithRenormalization prev idx nv =
           map Some (map (\<lambda>i. if i = idx then clamp nv 0 1
                               else prev ! i * ((1 - clamp nv 0 1) / otherSum prev idx))
                      [0..<length prev]) \<and>
         (0 \<le> nv \<and> nv \<le> 1 \<longrightarrow> clamp nv 0 1 = nv) \<and>
         sum_list (present (updateWeightWithRenormalization prev idx nv)) = 1 \<and>
         updateWeightWithRenormalization [1/2, 3/10, 1/5] 0 (4/5)
           = [Some (4/5), Some (3/25), Some (2/25)]"
proof (intro conjI)
  from assms(2) have "\<forall>i<length prev. i \<noteq> idx \<longrightarrow> 0 \<le> prev ! i" by simp
  from update_scaled [OF assms(1) this assms(3)]
  show "updateWeightWithRenormalization prev idx nv =
           map Some (map (\<lambda>i. if i = idx then clamp nv 0 1
                               else prev ! i * ((1 - clamp nv 0 1) / otherSum prev idx))
                      [0..<length prev])" .
  show "0 \<le> nv \<and> nv \<le> 1 \<longrightarrow> clamp nv 0 1 = nv"
    by (simp add: clamp_id)
  from assms(1) have "prev \<noteq> []" by auto
  from update_step_ok [OF this]
  show "sum_list (present (updateWeightWithRenormalization prev idx nv)) = 1" by blast
  show "updateWeightWithRenormalization [1/2, 3/10, 1/5] 0 (4/5)
           = [Some (4/5), Some (3/25), Some (2/25)]"
    by code_simp
qed

theorem renormalization_proportional_witness:
  "(1::nat) < length [1/5, 1/2, 3/10 :: real] \<and> list_all (\<lambda>x. 0 \<le> x) [1/5, 1/2, 3/10 :: real] \<and>
   1 / 10 ^ 9 < otherSum [1/5, 1/2, 3/10] 1 \<and>
   updateWeightWithRenormalization [1/5, 1/2, 3/10] 1 (3/5) = [Some (4/25), Some (3/5), Some (6/25)]"
proof -
  have h1: "(1::nat) < length [1/5, 1/2, 3/10 :: real]" by simp
  have h2: "\<forall>x\<in>set [1/5, 1/2, 3/10 :: real]. 0 \<le> x" by simp
  have os: "otherSum [1/5, 1/2, 3/10] 1 = 1/2"
    by (simp add: otherSum_upt upt_rec)
  then have h3: "1 / 10 ^ 9 < otherSum [1/5, 1/2, 3/10] 1" by simp
  from renormalization_proportional [OF h1 h2 h3, of "3/5", unfolded os] h1 h2 h3
  show ?thesis by (simp add: clamp_def upt_rec)
qed

text \<open>
  Claim C7. For every weight vector with at least 2 entries whose other-index sum is at most
  the threshold \<open>1e-9\<close>, and every index inside it, the result holds the (clamped) requested
  value \<open>v\<close> at the edited index and \<open>(1 - v) / (n - 1)\<close> at every other index. In particular
  \<open>[1, 0, 0]\<close> with index 0 set to 0.4 gives \<open>[0.4, 0.3, 0.3]\<close>, and a vector of length 1
  always gives \<open>[1]\<close>.
\<close>

theorem renormalization_uniform:
  "(2 \<le> length prev \<and> idx < length prev \<and> otherSum prev idx \<le> 1 / 10 ^ 9 \<longrightarrow>
      updateWeightWithRenormalization prev idx nv =
        map Some (map (\<lambda>i. if i = idx then clamp nv 0 1
                            else (1 - clamp nv 0 1) / (real (length prev) - 1))
                   [0..<length prev])) \<and>
   updateWeightWithRenormalization [1, 0, 0] 0 (2/5) = [Some (2/5), Some (3/10), Some (3/10)] \<and>
   (length prev = 1 \<longrightarrow> updateWeightWithRenormalization prev idx nv = [Some 1])"
proof (intro conjI impI)
  assume "2 \<le> length prev \<and> idx < length prev \<and> otherSum prev idx \<le> 1 / 10 ^ 9"
  then show "updateWeightWithRenormalization prev idx nv =
        map Some (map (\<lambda>i. if i = idx then clamp nv 0 1
                            else (1 - clamp nv 0 1) / (real (length prev) - 1))
                   [0..<length prev])"
    using update_uniform [of idx prev nv] by blast
next
  show "updateWeightWithRenormalization [1, 0, 0] 0 (2/5)
          = [Some (2/5), Some (3/10), Some (3/10)]"
    by code_simp
next
  assume "length prev = 1"
  then show "updateWeightWithRenormalization prev idx nv = [Some 1]"
    by (simp add: updateWeightWithRenormalization_def)
qed

theorem renormalization_uniform_witness:
  "(2::nat) \<le> length [0, 1, 0, 0 :: real] \<and> (1::nat) < length [0, 1, 0, 0 :: real] \<and>
   otherSum [0, 1, 0, 0] 1 \<le> 1 / 10 ^ 9 \<and>
   updateWeightWithRenormalization [0, 1, 0, 0] 1 (1/4) = [Some (1/4), Some (1/4), Some (1/4), Some (1/4)] \<and>
   length [7 :: real] = 1 \<and> updateWeightWithRenormalization [7] 0 (3/10) = [Some 1]"
proof -
  have os: "otherSum [0, 1, 0, 0] 1 = 0"
    by (simp add: otherSum_upt upt_rec)
  from renormalization_uniform [of "[0, 1, 0, 0]" 1 "1/4"]
       renormalization_uniform [of "[7]" 0 "3/10"] os
  show ?thesis by (simp add: clamp_def upt_rec)
qed

section \<open>Series alignment: proofs\<close>

lemma Math_min_Min: "xs \<noteq> [] \<Longrightarrow> Math_min xs = Some (Min (set xs))"
  by (cases xs) (simp_all add: Min.set_eq_fold [symmetric] del: set_simps)

lemma lastN_drop: "lastN n s = drop (length s - n) s"
  by (simp add: lastN_def take_rev)

lemma slice_lastN:
  assumes "s = [] \<or> n \<le> length s"
  shows "js_slice_from s (int (length s) - int n) = lastN n s"
  using assms by (auto simp: js_slice_from_def lastN_drop Let_def nat_diff_distrib')

lemma align_cases:
  "alignSeriesToCommonLength ss =
     (let lens = filter (\<lambda>l. 0 < l) (map length ss)
      in if lens = [] \<or> Min (set lens) < 2 then ss
         else map (lastN (Min (set lens))) ss)"
proof (cases "filter (\<lambda>l. 0 < l) (map length ss) = []")
  case True
  then show ?thesis by (simp add: alignSeriesToCommonLength_def)
next
  case False
  let ?lens = "filter (\<lambda>l. 0 < l) (map length ss)"
  let ?N = "Min (set ?lens)"
  have "js_slice_from s (int (length s) - int ?N) = lastN ?N s" if "s \<in> set ss" for s
  proof (rule slice_lastN, cases "s = []")
    case False
    with that have "length s \<in> set ?lens" by auto
    then have "?N \<le> length s" by (intro Min_le) auto
    then show "s = [] \<or> ?N \<le> length s" ..
  qed simp
  then have "map (\<lambda>s. js_slice_from s (int (length s) - int ?N)) ss = map (lastN ?N) ss"
    by (intro map_cong) auto
  with False show ?thesis
    by (simp add: alignSeriesToCommonLength_def Math_min_Min Let_def)
qed

lemma length_lastN: "length (lastN n s) = min n (length s)"
  by (simp add: lastN_def)

text \<open>
  Claim C9. With \<open>N\<close> the minimum of the non-zero lengths of the series:
  \<open>alignSeriesToCommonLength\<close> returns its input when no series has a positive length or
  \<open>N < 2\<close>; when \<open>N \<ge> 2\<close> it returns each series cut to its last \<open>N\<close> entries (a non-empty
  series then has exactly \<open>N\<close> entries, an empty one stays empty). For series of lengths
  10, 7 and 12 the result is the last 7 entries of each.
\<close>

theorem align_correct:
  "(filter (\<lambda>l. 0 < l) (map length ss) = [] \<longrightarrow> alignSeriesToCommonLength ss = ss) \<and>
   (filter (\<lambda>l. 0 < l) (map length ss) \<noteq> [] \<longrightarrow>
      (Min (set (filter (\<lambda>l. 0 < l) (map length ss))) < 2 \<longrightarrow>
         alignSeriesToCommonLength ss = ss) \<and>
      (2 \<le> Min (set (filter (\<lambda>l. 0 < l) (map length ss))) \<longrightarrow>
         alignSeriesToCommonLength ss
           = map (lastN (Min (set (filter (\<lambda>l. 0 < l) (map length ss))))) ss \<and>
         (\<forall>s\<in>set ss. s \<noteq> [] \<longrightarrow>
            length (lastN (Min (set (filter (\<lambda>l. 0 < l) (map length ss)))) s)
              = Min (set (filter (\<lambda>l. 0 < l) (map length ss)))))) \<and>
   (length a = 10 \<and> length b = 7 \<and> length c = 12 \<longrightarrow>
      alignSeriesToCommonLength [a, b, c] = [lastN 7 a, lastN 7 b, lastN 7 c] \<and>
      length (lastN 7 a) = 7 \<and> length (lastN 7 b) = 7 \<and> length (lastN 7 c) = 7)"
proof (intro conjI impI ballI)
  fix s assume "s \<in> set ss" "s \<noteq> []"
  then have "length s \<in> set (filter (\<lambda>l. 0 < l) (map length ss))" by auto
  then have "Min (set (filter (\<lambda>l. 0 < l) (map length ss))) \<le> length s"
    by (intro Min_le) auto
  then show "length (lastN (Min (set (filter (\<lambda>l. 0 < l) (map length ss)))) s)
              = Min (set (filter (\<lambda>l. 0 < l) (map length ss)))"
    by (simp add: length_lastN)
next
  assume "length a = 10 \<and> length b = 7 \<and> length c = 12"
  then show "alignSeriesToCommonLength [a, b, c] = [lastN 7 a, lastN 7 b, lastN 7 c]"
    by (simp add: align_cases)
qed (simp_all add: align_cases Let_def length_lastN)

theorem align_correct_witness:
  "filter (\<lambda>l. 0 < l) (map length [[1, 2, 3], [4, 5], [], [6, 7, 8, 9 :: real]]) \<noteq> [] \<and>
   2 \<le> Min (set (filter (\<lambda>l. 0 < l) (map length [[1, 2, 3], [4, 5], [], [6, 7, 8, 9 :: real]]))) \<and>
   alignSeriesToCommonLength [[1, 2, 3], [4, 5], [], [6, 7, 8, 9]] = [[2, 3], [4, 5], [], [8, 9]] \<and>
   filter (\<lambda>l. 0 < l) (map length [[], [] :: real list]) = [] \<and>
   alignSeriesToCommonLength [[], []] = [[], []] \<and>
   Min (set (filter (\<lambda>l. 0 < l) (map length [[1, 2, 3], [4 :: real]]))) < 2 \<and>
   alignSeriesToCommonLength [[1, 2, 3], [4]] = [[1, 2, 3], [4]]"
  using align_correct [of "[[1, 2, 3], [4, 5], [], [6, 7, 8, 9]]" "[]" "[]" "[]"]
        align_correct [of "[[], []]" "[]" "[]" "[]"]
        align_correct [of "[[1, 2, 3], [4]]" "[]" "[]" "[]"]
  by (simp add: lastN_def)

section \<open>Efficient frontier: proofs\<close>

lemma sorted_sortByRisk: "sorted (map risk (sortByRisk cl))"
  by (simp add: sortByRisk_def)

lemma set_sortByRisk: "set (sortByRisk cl) = set cl"
  by (simp add: sortByRisk_def)

lemma sortByRisk_Nil: "sortByRisk cl = [] \<longleftrightarrow> cl = []"
  using set_sortByRisk [of cl] by (metis set_empty)

lemma minR_le:
  assumes "sorted (map risk srt)" "p \<in> set srt"
  shows "minR srt \<le> risk p"
  using assms by (cases srt) (auto simp: minR_def)

lemma sorted_le_last:
  fixes xs :: "real list"
  shows "sorted xs \<Longrightarrow> x \<in> set xs \<Longrightarrow> x \<le> last xs"
  by (induction xs) auto

lemma le_maxR:
  assumes "sorted (map risk srt)" "p \<in> set srt"
  shows "risk p \<le> maxR srt"
proof -
  from assms(2) have ne: "srt \<noteq> []" by auto
  from assms(2) have "risk p \<in> set (map risk srt)" by simp
  with assms(1) have "risk p \<le> last (map risk srt)" by (rule sorted_le_last)
  with ne show ?thesis by (simp add: maxR_def last_map)
qed

lemma minR_mem: "srt \<noteq> [] \<Longrightarrow> minR srt \<in> risk ` set srt"
  by (cases srt) (auto simp: minR_def)

lemma maxR_mem: "srt \<noteq> [] \<Longrightarrow> maxR srt \<in> risk ` set srt"
  by (auto simp: maxR_def)

lemma minR_Min:
  assumes "cl \<noteq> []"
  shows "minR (sortByRisk cl) = Min (risk ` set cl)"
proof (rule sym, rule Min_eqI)
  show "finite (risk ` set cl)" by simp
  show "minR (sortByRisk cl) \<le> y" if "y \<in> risk ` set cl" for y
    using that minR_le [OF sorted_sortByRisk, of _ cl] by (auto simp: set_sortByRisk)
  show "minR (sortByRisk cl) \<in> risk ` set cl"
    using minR_mem [of "sortByRisk cl"] assms by (simp add: sortByRisk_Nil set_sortByRisk)
qed

lemma maxR_Max:
  assumes "cl \<noteq> []"
  shows "maxR (sortByRisk cl) = Max (risk ` set cl)"
proof (rule sym, rule Max_eqI)
  show "finite (risk ` set cl)" by simp
  show "y \<le> maxR (sortByRisk cl)" if "y \<in> risk ` set cl" for y
    using that le_maxR [OF sorted_sortByRisk, of _ cl] by (auto simp: set_sortByRisk)
  show "maxR (sortByRisk cl) \<in> risk ` set cl"
    using maxR_mem [of "sortByRisk cl"] assms by (simp add: sortByRisk_Nil set_sortByRisk)
qed

lemma minR_le_maxR:
  assumes "sorted (map risk srt)"
  shows "minR srt \<le> maxR srt"
proof (cases srt)
  case Nil
  then show ?thesis by (simp add: minR_def maxR_def)
next
  case (Cons p ps)
  then have "p \<in> set srt" by simp
  from le_maxR [OF assms this] Cons show ?thesis by (simp add: minR_def)
qed

lemma step_pos:
  assumes "sorted (map risk srt)"
  shows "0 < step srt"
  using minR_le_maxR [OF assms]
  by (auto simp: step_def Let_def bucketCount_def)

lemma step_total:
  assumes "minR srt < maxR srt"
  shows "minR srt + real bucketCount * step srt = maxR srt"
proof -
  from assms have "(maxR srt - minR srt) / real bucketCount \<noteq> 0"
    by (simp add: bucketCount_def)
  then have "step srt = (maxR srt - minR srt) / real bucketCount"
    by (simp add: step_def Let_def)
  then show ?thesis by (simp add: bucketCount_def)
qed

lemma bestRet_mem: "bestRet xs init \<in> insert init (set xs)"
proof (induction xs arbitrary: init)
  case Nil
  show ?case by (simp add: bestRet_def)
next
  case (Cons x xs)
  have "bestRet (x # xs) init = bestRet xs (if ret x > ret init then x else init)"
    by (simp add: bestRet_def)
  with Cons [of "if ret x > ret init then x else init"] show ?case
    by (auto split: if_splits)
qed

lemma inBucket_bounds:
  assumes "p \<in> set (inBucket srt b)"
  shows "p \<in> set srt" "minR srt + real b * step srt \<le> risk p"
        "risk p < minR srt + real (Suc b) * step srt"
  using assms by (auto simp: inBucket_def Let_def algebra_simps)

lemma bucketStep_cases:
  "bucketStep srt b F = F \<and> inBucket srt b = [] \<or>
   (\<exists>p \<in> set (inBucket srt b). bucketStep srt b F = F @ [\<lparr>risk = risk p, ret = ret p\<rparr>])"
proof (cases "inBucket srt b")
  case Nil
  then show ?thesis by (simp add: bucketStep_def)
next
  case (Cons p ps)
  have "bestRet (p # ps) p \<in> set (p # ps)"
    using bestRet_mem [of "p # ps" p] by simp
  with Cons show ?thesis by (auto simp: bucketStep_def Let_def)
qed

lemma frontier_invariant:
  assumes "0 \<le> step srt"
  shows "sorted (map risk (fold (bucketStep srt) [0..<k] [])) \<and>
         (\<forall>f\<in>set (fold (bucketStep srt) [0..<k] []).
             risk f < minR srt + real k * step srt \<and>
             (\<exists>b<k. \<exists>p\<in>set (inBucket srt b). risk f = risk p \<and> ret f = ret p))"
proof (induction k)
  case 0
  show ?case by simp
next
  case (Suc k)
  let ?F = "fold (bucketStep srt) [0..<k] []"
  have mono: "minR srt + real k * step srt \<le> minR srt + real (Suc k) * step srt"
    using assms by (simp add: algebra_simps)
  from bucketStep_cases [of srt k ?F] show ?case
  proof (elim disjE conjE bexE)
    assume "bucketStep srt k ?F = ?F"
    with Suc mono show ?thesis by (fastforce simp: less_Suc_eq)
  next
    fix p assume p: "p \<in> set (inBucket srt k)"
      and eq: "bucketStep srt k ?F = ?F @ [\<lparr>risk = risk p, ret = ret p\<rparr>]"
    note b = inBucket_bounds [OF p]
    have "sorted (map risk (?F @ [\<lparr>risk = risk p, ret = ret p\<rparr>]))"
      using Suc b(2) by (fastforce simp: sorted_append)
    moreover have "\<forall>f\<in>set (?F @ [\<lparr>risk = risk p, ret = ret p\<rparr>]).
             risk f < minR srt + real (Suc k) * step srt \<and>
             (\<exists>b<Suc k. \<exists>p\<in>set (inBucket srt b). risk f = risk p \<and> ret f = ret p)"
    proof
      fix f assume "f \<in> set (?F @ [\<lparr>risk = risk p, ret = ret p\<rparr>])"
      then consider "f \<in> set ?F" | "f = \<lparr>risk = risk p, ret = ret p\<rparr>" by auto
      then show "risk f < minR srt + real (Suc k) * step srt \<and>
             (\<exists>b<Suc k. \<exists>p\<in>set (inBucket srt b). risk f = risk p \<and> ret f = ret p)"
      proof cases
        case 1
        with Suc mono show ?thesis by (fastforce simp: less_Suc_eq)
      next
        case 2
        with b(3) p show ?thesis by auto
      qed
    qed
    ultimately show ?thesis using eq by simp
  qed
qed


lemma frontier_unfold:
  "frontier (generateEfficientFrontier cl) = fold (bucketStep (sortByRisk cl)) [0..<bucketCount] []"
  by (simp add: generateEfficientFrontier_def frontierOfCloud_def)

lemma fold_skip_empty:
  "\<forall>b\<in>set bs. inBucket srt b = [] \<Longrightarrow> fold (bucketStep srt) bs F = F"
  by (induction bs arbitrary: F) (simp_all add: bucketStep_def)

lemma frontier_example:
  "frontier (generateEfficientFrontier
      [\<lparr>risk = 1, ret = 2, sharpe = 0, w = [1]\<rparr>, \<lparr>risk = 3, ret = 9, sharpe = 0, w = [1]\<rparr>,
       \<lparr>risk = 2, ret = 5, sharpe = 0, w = [1]\<rparr>])
     = [\<lparr>risk = 1, ret = 2\<rparr>, \<lparr>risk = 2, ret = 5\<rparr>]"
  by code_simp

text \<open>
  Claim C5. For every cloud, the risk values of the frontier entries, in the order they are
  emitted, are non-decreasing.
\<close>

theorem frontier_risk_nondecreasing:
  "sorted (map risk (frontier (generateEfficientFrontier cl)))"
proof -
  have "0 \<le> step (sortByRisk cl)"
    using step_pos [OF sorted_sortByRisk, of cl] by simp
  from frontier_invariant [OF this, of bucketCount] show ?thesis
    by (simp add: frontier_unfold)
qed

theorem frontier_risk_nondecreasing_witness:
  "frontier (generateEfficientFrontier
      [\<lparr>risk = 1, ret = 2, sharpe = 0, w = [1]\<rparr>, \<lparr>risk = 3, ret = 9, sharpe = 0, w = [1]\<rparr>,
       \<lparr>risk = 2, ret = 5, sharpe = 0, w = [1]\<rparr>])
     = [\<lparr>risk = 1, ret = 2\<rparr>, \<lparr>risk = 2, ret = 5\<rparr>] \<and>
   sorted (map risk (frontier (generateEfficientFrontier
      [\<lparr>risk = 1, ret = 2, sharpe = 0, w = [1]\<rparr>, \<lparr>risk = 3, ret = 9, sharpe = 0, w = [1]\<rparr>,
       \<lparr>risk = 2, ret = 5, sharpe = 0, w = [1]\<rparr>])))"
  using frontier_example
    frontier_risk_nondecreasing [of "[\<lparr>risk = 1, ret = 2, sharpe = 0, w = [1]\<rparr>,
       \<lparr>risk = 3, ret = 9, sharpe = 0, w = [1]\<rparr>, \<lparr>risk = 2, ret = 5, sharpe = 0, w = [1]\<rparr>]"]
  by (intro conjI)

lemma below_maxR:
  assumes srt: "sorted (map risk srt)" and lt: "minR srt < maxR srt"
    and b: "b < bucketCount" and p: "p \<in> set (inBucket srt b)"
  shows "risk p < maxR srt"
proof -
  from b have "real (Suc b) \<le> real bucketCount" by simp
  moreover have "0 \<le> step srt" using step_pos [OF srt] by simp
  ultimately have "real (Suc b) * step srt \<le> real bucketCount * step srt"
    by (rule mult_right_mono)
  with inBucket_bounds(3) [OF p] step_total [OF lt] show ?thesis by simp
qed

text \<open>
  Claim C10. A point belongs to a bucket only if its risk is strictly below the bucket's
  upper bound. Hence, when the cloud is non-empty and its maximal risk exceeds its minimal
  risk, a cloud point of maximal risk lies in none of the buckets, and every frontier entry
  has a risk strictly below the maximal risk of the cloud.
\<close>

theorem max_risk_point_excluded:
  assumes "cl \<noteq> []" and "Min (risk ` set cl) < Max (risk ` set cl)"
  shows "(\<forall>p\<in>set cl. risk p = Max (risk ` set cl) \<longrightarrow>
            (\<forall>b<bucketCount. p \<notin> set (inBucket (sortByRisk cl) b))) \<and>
         (\<forall>f\<in>set (frontier (generateEfficientFrontier cl)). risk f < Max (risk ` set cl))"
proof -
  let ?srt = "sortByRisk cl"
  have srt: "sorted (map risk ?srt)" by (rule sorted_sortByRisk)
  from assms have lt: "minR ?srt < maxR ?srt"
    by (simp add: minR_Min maxR_Max)
  have mx: "maxR ?srt = Max (risk ` set cl)" using assms(1) by (rule maxR_Max)
  have part1: "\<forall>p\<in>set cl. risk p = Max (risk ` set cl) \<longrightarrow>
            (\<forall>b<bucketCount. p \<notin> set (inBucket ?srt b))"
    using below_maxR [OF srt lt] mx by fastforce
  have "0 \<le> step ?srt" using step_pos [OF srt] by simp
  from frontier_invariant [OF this, of bucketCount]
  have "\<forall>f\<in>set (frontier (generateEfficientFrontier cl)).
          \<exists>b<bucketCount. \<exists>p\<in>set (inBucket ?srt b). risk f = risk p"
    unfolding frontier_unfold by blast
  then have part2: "\<forall>f\<in>set (frontier (generateEfficientFrontier cl)). risk f < Max (risk ` set cl)"
    using below_maxR [OF srt lt] mx by fastforce
  from part1 part2 show ?thesis by blast
qed

theorem max_risk_point_excluded_witness:
  "[\<lparr>risk = 1, ret = 2, sharpe = 0, w = [1]\<rparr>, \<lparr>risk = 3, ret = 9, sharpe = 0, w = [1]\<rparr>,
    \<lparr>risk = 2, ret = 5, sharpe = 0, w = [1]\<rparr>] \<noteq> [] \<and>
   Min (risk ` set [\<lparr>risk = 1, ret = 2, sharpe = 0, w = [1]\<rparr>,
      \<lparr>risk = 3, ret = 9, sharpe = 0, w = [1]\<rparr>, \<lparr>risk = 2, ret = 5, sharpe = 0, w = [1]\<rparr>])
     < Max (risk ` set [\<lparr>risk = 1, ret = 2, sharpe = 0, w = [1]\<rparr>,
      \<lparr>risk = 3, ret = 9, sharpe = 0, w = [1]\<rparr>, \<lparr>risk = 2, ret = 5, sharpe = 0, w = [1]\<rparr>]) \<and>
   Max (risk ` set [\<lparr>risk = 1, ret = 2, sharpe = 0, w = [1]\<rparr>,
      \<lparr>risk = 3, ret = 9, sharpe = 0, w = [1]\<rparr>, \<lparr>risk = 2, ret = 5, sharpe = 0, w = [1]\<rparr>]) = 3 \<and>
   list_all (\<lambda>b. \<lparr>risk = 3, ret = 9, sharpe = 0, w = [1]\<rparr> \<notin> set (inBucket (sortByRisk
      [\<lparr>risk = 1, ret = 2, sharpe = 0, w = [1]\<rparr>, \<lparr>risk = 3, ret = 9, sharpe = 0, w = [1]\<rparr>,
       \<lparr>risk = 2, ret = 5, sharpe = 0, w = [1]\<rparr>]) b)) [0..<bucketCount] \<and>
   list_all (\<lambda>f. risk f < 3) (frontier (generateEfficientFrontier
      [\<lparr>risk = 1, ret = 2, sharpe = 0, w = [1]\<rparr>, \<lparr>risk = 3, ret = 9, sharpe = 0, w = [1]\<rparr>,
       \<lparr>risk = 2, ret = 5, sharpe = 0, w = [1]\<rparr>])) \<and>
   frontier (generateEfficientFrontier
      [\<lparr>risk = 1, ret = 2, sharpe = 0, w = [1]\<rparr>, \<lparr>risk = 3, ret = 9, sharpe = 0, w = [1]\<rparr>,
       \<lparr>risk = 2, ret = 5, sharpe = 0, w = [1]\<rparr>])
     = [\<lparr>risk = 1, ret = 2\<rparr>, \<lparr>risk = 2, ret = 5\<rparr>]"
proof -
  let ?c = "[\<lparr>risk = 1, ret = 2, sharpe = 0, w = [1]\<rparr>, \<lparr>risk = 3, ret = 9, sharpe = 0, w = [1]\<rparr>,
       \<lparr>risk = 2, ret = 5, sharpe = 0, w = [1]\<rparr>]"
  have ne: "?c \<noteq> []" by simp
  have mn: "Min (risk ` set ?c) = 1" by simp
  have mx: "Max (risk ` set ?c) = 3" by simp
  have lt: "Min (risk ` set ?c) < Max (risk ` set ?c)" unfolding mn mx by simp
  note th = max_risk_point_excluded [OF ne lt, unfolded mx]
  have "\<forall>b<bucketCount. \<lparr>risk = 3, ret = 9, sharpe = 0, w = [1]\<rparr> \<notin> set (inBucket (sortByRisk ?c) b)"
    using th by simp
  then have a: "list_all (\<lambda>b. \<lparr>risk = 3, ret = 9, sharpe = 0, w = [1]\<rparr>
                   \<notin> set (inBucket (sortByRisk ?c) b)) [0..<bucketCount]"
    by (simp add: list_all_iff)
  have b: "list_all (\<lambda>f. risk f < 3) (frontier (generateEfficientFrontier ?c))"
    using th by (simp add: list_all_iff)
  from ne lt mx a b frontier_example show ?thesis by (intro conjI)
qed

text \<open>
  Claim C4, as amended. When the cloud is empty the risk range defaults to \<open>[0, 1]\<close>, the
  bucket width is \<open>1/40\<close> and the frontier is empty. When the cloud is non-empty and its
  maximal risk equals its minimal risk, the bucket width falls back to 1 and the frontier is
  a single entry at that risk. The bucket width is positive for every cloud.
\<close>

theorem bucket_width_fallback:
  "(cl = [] \<longrightarrow>
      step (sortByRisk cl) = 1 / 40 \<and> frontier (generateEfficientFrontier cl) = []) \<and>
   (cl \<noteq> [] \<and> Max (risk ` set cl) = Min (risk ` set cl) \<longrightarrow>
      step (sortByRisk cl) = 1 \<and>
      (\<exists>f. frontier (generateEfficientFrontier cl) = [f] \<and> risk f = Min (risk ` set cl))) \<and>
   0 < step (sortByRisk cl)"
proof (intro conjI impI)
  show "0 < step (sortByRisk cl)" by (rule step_pos [OF sorted_sortByRisk])
next
  assume "cl = []"
  then have e: "sortByRisk cl = []" by (simp add: sortByRisk_Nil)
  show "step (sortByRisk cl) = 1 / 40"
    unfolding e by (simp add: step_def minR_def maxR_def bucketCount_def)
  have "\<forall>b\<in>set [0..<bucketCount]. inBucket [] b = []" by (simp add: inBucket_def)
  then show "frontier (generateEfficientFrontier cl) = []"
    unfolding frontier_unfold e by (rule fold_skip_empty)
next
  assume a: "cl \<noteq> [] \<and> Max (risk ` set cl) = Min (risk ` set cl)"
  let ?srt = "sortByRisk cl"
  let ?r = "Min (risk ` set cl)"
  from a have mn: "minR ?srt = ?r" and mx: "maxR ?srt = ?r"
    by (simp_all add: minR_Min maxR_Max)
  then show st: "step ?srt = 1" by (simp add: step_def)
  have all: "risk p = ?r" if "p \<in> set ?srt" for p
    using minR_le [OF sorted_sortByRisk that] le_maxR [OF sorted_sortByRisk that] mn mx
    by simp
  have b0: "inBucket ?srt 0 = ?srt"
    unfolding inBucket_def Let_def by (rule filter_True) (simp add: mn st all)
  have rest: "\<forall>b\<in>set [1..<bucketCount]. inBucket ?srt b = []"
    unfolding inBucket_def Let_def by (auto simp: filter_empty_conv mn st all)
  from a have "?srt \<noteq> []" by (simp add: sortByRisk_Nil)
  with bucketStep_cases [of ?srt 0 "[]"] b0
  obtain p where p: "p \<in> set ?srt" "bucketStep ?srt 0 [] = [\<lparr>risk = risk p, ret = ret p\<rparr>]"
    by auto
  have "[0..<bucketCount] = 0 # [1..<bucketCount]"
    by (simp add: bucketCount_def upt_conv_Cons)
  then have "frontier (generateEfficientFrontier cl)
               = fold (bucketStep ?srt) [1..<bucketCount] (bucketStep ?srt 0 [])"
    by (simp add: frontier_unfold)
  also have "\<dots> = bucketStep ?srt 0 []" using rest by (rule fold_skip_empty)
  finally show "\<exists>f. frontier (generateEfficientFrontier cl) = [f] \<and> risk f = ?r"
    using p all by simp
qed

theorem bucket_width_fallback_witness:
  "step (sortByRisk []) = 1 / 40 \<and> frontier (generateEfficientFrontier []) = [] \<and>
   Max (risk ` set [\<lparr>risk = 2, ret = 5, sharpe = 0, w = [1]\<rparr>, \<lparr>risk = 2, ret = 7, sharpe = 0, w = [1]\<rparr>])
     = Min (risk ` set [\<lparr>risk = 2, ret = 5, sharpe = 0, w = [1]\<rparr>, \<lparr>risk = 2, ret = 7, sharpe = 0, w = [1]\<rparr>]) \<and>
   step (sortByRisk [\<lparr>risk = 2, ret = 5, sharpe = 0, w = [1]\<rparr>, \<lparr>risk = 2, ret = 7, sharpe = 0, w = [1]\<rparr>]) = 1 \<and>
   length (frontier (generateEfficientFrontier
      [\<lparr>risk = 2, ret = 5, sharpe = 0, w = [1]\<rparr>, \<lparr>risk = 2, ret = 7, sharpe = 0, w = [1]\<rparr>])) = 1"
  using bucket_width_fallback [of "[]"]
        bucket_width_fallback [of "[\<lparr>risk = 2, ret = 5, sharpe = 0, w = [1]\<rparr>,
                                     \<lparr>risk = 2, ret = 7, sharpe = 0, w = [1]\<rparr>]"]
  by auto

theorem bucket_width_empty_cloud_counterexample:
  "step (sortByRisk []) = 1 / 40 \<and> step (sortByRisk []) \<noteq> 1"
  by (simp add: step_def minR_def maxR_def bucketCount_def sortByRisk_def)

section \<open>Statistics: proofs\<close>

subsection \<open>Cauchy-Schwarz for finite sums\<close>

lemma sum_cauchy_schwarz:
  fixes f g :: "nat \<Rightarrow> real"
  shows "(\<Sum>t<T. f t * g t)\<^sup>2 \<le> (\<Sum>t<T. (f t)\<^sup>2) * (\<Sum>t<T. (g t)\<^sup>2)"
proof -
  let ?A = "\<Sum>t<T. (f t)\<^sup>2" and ?B = "\<Sum>t<T. (g t)\<^sup>2" and ?C = "\<Sum>t<T. f t * g t"
  have B0: "0 \<le> ?B" by (simp add: sum_nonneg)
  show ?thesis
  proof (cases "?B = 0")
    case True
    then have "\<forall>t\<in>{..<T}. (g t)\<^sup>2 = 0"
      by (subst (asm) sum_nonneg_eq_0_iff) auto
    then have "?C = 0" by simp
    with True show ?thesis by simp
  next
    case False
    with B0 have Bpos: "0 < ?B" by simp
    have "0 \<le> (\<Sum>t<T. (?B * f t - ?C * g t)\<^sup>2)" by (simp add: sum_nonneg)
    also have "(\<Sum>t<T. (?B * f t - ?C * g t)\<^sup>2)
        = (\<Sum>t<T. ?B\<^sup>2 * (f t)\<^sup>2 - 2 * ?B * ?C * (f t * g t) + ?C\<^sup>2 * (g t)\<^sup>2)"
      by (rule sum.cong) (simp_all add: power2_diff power_mult_distrib algebra_simps)
    also have "\<dots> = ?B\<^sup>2 * ?A - 2 * ?B * ?C * ?C + ?C\<^sup>2 * ?B"
      by (simp only: sum.distrib sum_subtractf sum_distrib_left)
    also have "\<dots> = ?B * (?A * ?B - ?C\<^sup>2)"
      by (simp add: power2_eq_square algebra_simps)
    finally have "0 \<le> ?B * (?A * ?B - ?C\<^sup>2)" .
    with Bpos have "0 \<le> ?A * ?B - ?C\<^sup>2"
      by (simp add: zero_le_mult_iff)
    then show ?thesis by simp
  qed
qed

subsection \<open>Matrices as functions\<close>

lemma length_mat_of [simp]: "length (mat_of n f) = n"
  by (simp add: mat_of_def)

lemma nth_mat_of [simp]: "a < n \<Longrightarrow> mat_of n f ! a = map (f a) [0..<n]"
  by (simp add: mat_of_def)

lemma nth_nth_mat_of: "a < n \<Longrightarrow> b < n \<Longrightarrow> mat_of n f ! a ! b = f a b"
  by simp

lemma mat_of_cong:
  "(\<And>a b. a < n \<Longrightarrow> b < n \<Longrightarrow> f a b = g a b) \<Longrightarrow> mat_of n f = mat_of n g"
  by (simp add: mat_of_def)

lemma mat_of_const: "replicate n (replicate n c) = mat_of n (\<lambda>_ _. c)"
  by (simp add: mat_of_def map_replicate_const)

lemma mat_set_mat_of:
  assumes "i < n" "j < n"
  shows "mat_set (mat_of n f) i j v = mat_of n (\<lambda>a b. if a = i \<and> b = j then v else f a b)"
  using assms
  by (auto simp: mat_set_def mat_of_def intro!: nth_equalityI simp: nth_list_update)


subsection \<open>The loops of \<open>covarianceMatrix\<close>\<close>

lemma cov_inner_loop:
  assumes "i < n" "k \<le> n"
  shows "fold (\<lambda>j m. mat_set (mat_set m i j (cf j)) j i (cf j)) [i..<k] (mat_of n f)
           = mat_of n (\<lambda>a b. if a = i \<and> i \<le> b \<and> b < k then cf b
                               else if b = i \<and> i \<le> a \<and> a < k then cf a else f a b)"
  using assms(2)
proof (induction k)
  case 0
  show ?case by simp
next
  case (Suc k)
  let ?F = "\<lambda>j m. mat_set (mat_set m i j (cf j)) j i (cf j)"
  let ?g = "\<lambda>k a b. if a = i \<and> i \<le> b \<and> b < k then cf b
                    else if b = i \<and> i \<le> a \<and> a < k then cf a else f a b"
  show ?case
  proof (cases "i \<le> k")
    case True
    from Suc.prems have k: "k < n" by simp
    from True have "fold ?F [i..<Suc k] (mat_of n f) = ?F k (fold ?F [i..<k] (mat_of n f))"
      by simp
    also have "\<dots> = ?F k (mat_of n (?g k))"
      using Suc.IH k by simp
    also have "\<dots> = mat_of n (\<lambda>a b. if a = k \<and> b = i then cf k
                                 else if a = i \<and> b = k then cf k else ?g k a b)"
      by (simp only: mat_set_mat_of [OF assms(1) k] mat_set_mat_of [OF k assms(1)])
    also have "\<dots> = mat_of n (?g (Suc k))"
      using True by (intro mat_of_cong) (auto simp: less_Suc_eq)
    finally show ?thesis .
  next
    case False
    then have "[i..<Suc k] = []" by simp
    moreover have "mat_of n f = mat_of n (?g (Suc k))"
      using False by (intro mat_of_cong) auto
    ultimately show ?thesis by simp
  qed
qed

lemma cov_outer_loop:
  assumes "k \<le> n"
  shows "fold (\<lambda>i m. fold (\<lambda>j m. mat_set (mat_set m i j (cf i j)) j i (cf i j)) [i..<n] m)
           [0..<k] (mat_of n f)
           = mat_of n (\<lambda>a b. if min a b < k then cf (min a b) (max a b) else f a b)"
  using assms
proof (induction k)
  case 0
  show ?case by simp
next
  case (Suc k)
  then have k: "k < n" by simp
  let ?I = "\<lambda>i m. fold (\<lambda>j m. mat_set (mat_set m i j (cf i j)) j i (cf i j)) [i..<n] m"
  let ?g = "\<lambda>k a b. if min a b < k then cf (min a b) (max a b) else f a b"
  have "fold ?I [0..<Suc k] (mat_of n f) = ?I k (fold ?I [0..<k] (mat_of n f))"
    by simp
  also have "\<dots> = ?I k (mat_of n (?g k))"
    using Suc.IH k by simp
  also have "\<dots> = mat_of n (\<lambda>a b. if a = k \<and> k \<le> b \<and> b < n then cf k b
                               else if b = k \<and> k \<le> a \<and> a < n then cf k a else ?g k a b)"
    by (rule cov_inner_loop [OF k le_refl])
  also have "\<dots> = mat_of n (?g (Suc k))"
    by (intro mat_of_cong) (auto simp: min_def max_def less_Suc_eq)
  finally show ?case .
qed

lemma fold_add_sum_list: "fold (\<lambda>b a. a + b) xs (acc::real) = acc + sum_list xs"
  by (induction xs arbitrary: acc) auto

lemma mean_eq: "mean arr = sum_list arr / max 1 (real (length arr))"
  by (simp add: mean_def fold_add_sum_list)

lemma mean_nonempty: "arr \<noteq> [] \<Longrightarrow> mean arr = sum_list arr / real (length arr)"
  by (cases arr) (simp_all add: mean_eq max_def)

lemma covAcc_eq:
  "covAcc si mui sj muj T =
     (if T \<le> length si \<and> T \<le> length sj
      then Some (\<Sum>t<T. (si ! t - mui) * (sj ! t - muj)) else None)"
proof (induction T)
  case 0
  show ?case by (simp add: covAcc_def)
next
  case (Suc T)
  have "covAcc si mui sj muj (Suc T) =
          (case covAcc si mui sj muj T of
             None \<Rightarrow> None
           | Some a \<Rightarrow>
               (case js_nth si T of
                  None \<Rightarrow> None
                | Some x \<Rightarrow>
                    (case js_nth sj T of
                       None \<Rightarrow> None
                     | Some y \<Rightarrow> Some (a + (x - mui) * (y - muj)))))"
    by (simp add: covAcc_def split: option.splits)
  then show ?case
    unfolding Suc.IH by (auto simp: js_nth_def)
qed

lemma covarianceMatrix_eq:
  "covarianceMatrix ss =
     (let n = length ss; T = (case ss of [] \<Rightarrow> 0 | s # _ \<Rightarrow> length s)
      in if T < 2 then mat_of n (\<lambda>_ _. Some 0)
         else mat_of n (\<lambda>a b. covEntry ss T (min a b) (max a b)))"
proof -
  let ?n = "length ss" and ?T = "case ss of [] \<Rightarrow> 0 | s # _ \<Rightarrow> length s"
  let ?cf = "\<lambda>i j. map_option (\<lambda>a. a / (real ?T - 1))
                (covAcc (ss ! i) (map mean ss ! i) (ss ! j) (map mean ss ! j) ?T)"
  have "covarianceMatrix ss =
      (if ?T < 2 then mat_of ?n (\<lambda>_ _. Some 0)
       else fold (\<lambda>i m. fold (\<lambda>j m. mat_set (mat_set m i j (?cf i j)) j i (?cf i j)) [i..<?n] m)
              [0..<?n] (mat_of ?n (\<lambda>_ _. Some 0)))"
    by (simp add: covarianceMatrix_def Let_def mat_of_const)
  also have "fold (\<lambda>i m. fold (\<lambda>j m. mat_set (mat_set m i j (?cf i j)) j i (?cf i j)) [i..<?n] m)
              [0..<?n] (mat_of ?n (\<lambda>_ _. Some 0))
       = mat_of ?n (\<lambda>a b. if min a b < ?n then ?cf (min a b) (max a b) else Some 0)"
    by (rule cov_outer_loop) simp
  also have "\<dots> = mat_of ?n (\<lambda>a b. covEntry ss ?T (min a b) (max a b))"
    by (rule mat_of_cong) (simp add: covEntry_def min_def max_def)
  finally show ?thesis by (simp add: Let_def)
qed

subsection \<open>The loops of \<open>correlationFromCov\<close>\<close>

lemma fill_inner_loop:
  assumes "i < n" "k \<le> n"
  shows "fold (\<lambda>j m. mat_set m i j (e j)) [0..<k] (mat_of n f)
           = mat_of n (\<lambda>a b. if a = i \<and> b < k then e b else f a b)"
  using assms(2)
proof (induction k)
  case 0
  show ?case by simp
next
  case (Suc k)
  then have k: "k < n" by simp
  let ?F = "\<lambda>j m. mat_set m i j (e j)"
  let ?g = "\<lambda>k a b. if a = i \<and> b < k then e b else f a b"
  have "fold ?F [0..<Suc k] (mat_of n f) = ?F k (fold ?F [0..<k] (mat_of n f))"
    by simp
  also have "\<dots> = ?F k (mat_of n (?g k))"
    using Suc.IH k by simp
  also have "\<dots> = mat_of n (\<lambda>a b. if a = i \<and> b = k then e k else ?g k a b)"
    by (simp only: mat_set_mat_of [OF assms(1) k])
  also have "\<dots> = mat_of n (?g (Suc k))"
    by (intro mat_of_cong) (auto simp: less_Suc_eq)
  finally show ?case .
qed

lemma fill_outer_loop:
  assumes "k \<le> n"
  shows "fold (\<lambda>i m. fold (\<lambda>j m. mat_set m i j (e i j)) [0..<n] m) [0..<k] (mat_of n f)
           = mat_of n (\<lambda>a b. if a < k then e a b else f a b)"
  using assms
proof (induction k)
  case 0
  show ?case by simp
next
  case (Suc k)
  then have k: "k < n" by simp
  let ?I = "\<lambda>i m. fold (\<lambda>j m. mat_set m i j (e i j)) [0..<n] m"
  let ?g = "\<lambda>k a b. if a < k then e a b else f a b"
  have "fold ?I [0..<Suc k] (mat_of n f) = ?I k (fold ?I [0..<k] (mat_of n f))"
    by simp
  also have "\<dots> = ?I k (mat_of n (?g k))"
    using Suc.IH k by simp
  also have "\<dots> = mat_of n (\<lambda>a b. if a = k \<and> b < n then e k b else ?g k a b)"
    by (rule fill_inner_loop [OF k le_refl])
  also have "\<dots> = mat_of n (?g (Suc k))"
    by (intro mat_of_cong) (auto simp: less_Suc_eq)
  finally show ?case .
qed

lemma length_diagFromCov [simp]: "length (diagFromCov cov) = length cov"
  by (simp add: diagFromCov_def)

lemma sdOf_eq:
  assumes "i < length cov"
  shows "sdOf cov i = (case js_nth (cov ! i) i of Some (Some x) \<Rightarrow> sqrt (max 0 x) | _ \<Rightarrow> 0)"
  using assms
  by (simp add: sdOf_def js_nth_def diagFromCov_def nth_enumerate_eq orZero_def
        split: option.splits)

lemma correlationFromCov_eq:
  "correlationFromCov cov = mat_of (length cov) (corrEntry cov)"
proof -
  let ?n = "length cov"
  have "correlationFromCov cov
          = fold (\<lambda>i m. fold (\<lambda>j m. mat_set m i j (corrEntry cov i j)) [0..<?n] m) [0..<?n]
              (mat_of ?n (\<lambda>_ _. Some 0))"
    by (simp only: correlationFromCov_def Let_def mat_of_const corrEntry_def sdOf_def)
  also have "\<dots> = mat_of ?n (\<lambda>a b. if a < ?n then corrEntry cov a b else Some 0)"
    by (rule fill_outer_loop) simp
  also have "\<dots> = mat_of ?n (corrEntry cov)"
    by (rule mat_of_cong) simp
  finally show ?thesis .
qed

lemma corr_entry:
  assumes "i < length cov" "j < length cov"
  shows "correlationFromCov cov ! i ! j = corrEntry cov i j"
  by (simp only: correlationFromCov_eq nth_nth_mat_of [OF assms])

lemma ratio_bound:
  fixes u p q :: real
  assumes "0 < p" "0 < q" "u\<^sup>2 \<le> p * q"
  shows "- 1 \<le> u / (sqrt p * sqrt q) \<and> u / (sqrt p * sqrt q) \<le> 1"
proof -
  define d where "d = sqrt p * sqrt q"
  have "\<bar>u\<bar> = sqrt (u\<^sup>2)" by simp
  also have "\<dots> \<le> sqrt (p * q)" using assms(3) by (rule real_sqrt_le_mono)
  also have "\<dots> = d" unfolding d_def by (rule real_sqrt_mult)
  finally have le: "\<bar>u\<bar> \<le> d" .
  have pos: "0 < d" using assms by (simp add: d_def)
  from le have "u \<le> d" "- d \<le> u" by linarith+
  with pos have "- 1 \<le> u / d \<and> u / d \<le> 1"
    by (simp add: pos_divide_le_eq pos_le_divide_eq)
  then show ?thesis by (simp only: d_def)
qed

lemma covEntry_eq:
  "covEntry ss T i j =
     (if T \<le> length (ss ! i) \<and> T \<le> length (ss ! j)
      then Some (devSum ss T i j / (real T - 1)) else None)"
  by (simp add: covEntry_def covAcc_eq devSum_def)

lemma devSum_commute: "devSum ss T i j = devSum ss T j i"
  unfolding devSum_def by (rule sum.cong) (simp_all add: mult.commute)

lemma devSum_min_max: "devSum ss T (min a b) (max a b) = devSum ss T a b"
  by (cases "a \<le> b") (simp_all add: min_def max_def devSum_commute [of ss T b a])

lemma devSum_diag_nonneg: "0 \<le> devSum ss T i i"
  unfolding devSum_def by (rule sum_nonneg) simp

lemma devSum_cauchy_schwarz: "(devSum ss T i j)\<^sup>2 \<le> devSum ss T i i * devSum ss T j j"
  using sum_cauchy_schwarz [of "\<lambda>t. ss ! i ! t - mean (ss ! i)" "\<lambda>t. ss ! j ! t - mean (ss ! j)" T]
  by (simp add: devSum_def power2_eq_square)

lemma length_covarianceMatrix [simp]: "length (covarianceMatrix ss) = length ss"
  by (simp add: covarianceMatrix_eq Let_def)

lemma length_row_covarianceMatrix:
  "a < length ss \<Longrightarrow> length (covarianceMatrix ss ! a) = length ss"
  by (simp add: covarianceMatrix_eq Let_def)

lemma cov_entry:
  assumes "a < length ss" "b < length ss"
  shows "covarianceMatrix ss ! a ! b =
           (if periods ss < 2 then Some 0
            else if periods ss \<le> length (ss ! a) \<and> periods ss \<le> length (ss ! b)
            then Some (devSum ss (periods ss) a b / (real (periods ss) - 1))
            else None)"
proof -
  have "covarianceMatrix ss ! a ! b =
          (if periods ss < 2 then Some 0
           else covEntry ss (periods ss) (min a b) (max a b))"
    using assms by (simp add: covarianceMatrix_eq Let_def periods_def)
  also have "covEntry ss (periods ss) (min a b) (max a b) =
          (if periods ss \<le> length (ss ! a) \<and> periods ss \<le> length (ss ! b)
           then Some (devSum ss (periods ss) a b / (real (periods ss) - 1)) else None)"
    unfolding covEntry_eq devSum_min_max by (auto simp: min_def max_def)
  finally show ?thesis .
qed

lemma periods_aligned:
  assumes "\<forall>s\<in>set ss. length s = T" "ss \<noteq> []"
  shows "periods ss = T"
  using assms by (cases ss) (simp_all add: periods_def)

lemma devSum_sampleCovariance:
  assumes "length (ss ! a) = T" "length (ss ! b) = T" "0 < T"
  shows "devSum ss T a b / (real T - 1) = sampleCovariance T (ss ! a) (ss ! b)"
proof -
  from assms have "ss ! a \<noteq> []" "ss ! b \<noteq> []" by auto
  then show ?thesis
    by (simp add: devSum_def sampleCovariance_def mean_nonempty)
qed

lemma cov_entry_aligned:
  assumes al: "\<forall>s\<in>set ss. length s = T" and a: "a < length ss" and b: "b < length ss"
  shows "covarianceMatrix ss ! a ! b
           = Some (if T < 2 then 0 else sampleCovariance T (ss ! a) (ss ! b))"
proof -
  from a have ne: "ss \<noteq> []" by auto
  have T: "periods ss = T" using al ne by (rule periods_aligned)
  from al a b have la: "length (ss ! a) = T" and lb: "length (ss ! b) = T" by simp_all
  show ?thesis
  proof (cases "T < 2")
    case True
    then show ?thesis by (simp add: cov_entry [OF a b] T)
  next
    case False
    then have "0 < T" by simp
    from devSum_sampleCovariance [OF la lb this] False la lb show ?thesis
      by (simp add: cov_entry [OF a b] T)
  qed
qed

lemma cov_example:
  "covarianceMatrix [[0, 1, 2], [1, 0, 2]] = [[Some 1, Some (1/2)], [Some (1/2), Some 1]]"
  by code_simp

lemma cov_short_example:
  "covarianceMatrix [[5], [7]] = [[Some 0, Some 0], [Some 0, Some 0]]"
  by code_simp

lemma sampleCovariance_example: "sampleCovariance 3 [0, 1, 2] [1, 0, 2] = 1/2"
  by code_simp

text \<open>
  Claim C8. For every series set whose series all have the same length \<open>T\<close>,
  \<open>covarianceMatrix\<close> returns an \<open>n\<close> by \<open>n\<close> matrix whose entry \<open>(i, j)\<close> is the unbiased
  sample covariance (divisor \<open>T - 1\<close>) of series \<open>i\<close> and \<open>j\<close> when \<open>T \<ge> 2\<close>; the matrix is
  symmetric, every diagonal entry is \<open>\<ge> 0\<close>, and for \<open>T < 2\<close> it is the zero matrix.
\<close>

theorem covariance_correct:
  assumes "\<forall>s\<in>set ss. length s = T"
  shows "length (covarianceMatrix ss) = length ss \<and>
         (\<forall>i<length ss. length (covarianceMatrix ss ! i) = length ss) \<and>
         (\<forall>i<length ss. \<forall>j<length ss.
            covarianceMatrix ss ! i ! j
              = Some (if T < 2 then 0 else sampleCovariance T (ss ! i) (ss ! j)) \<and>
            covarianceMatrix ss ! i ! j = covarianceMatrix ss ! j ! i) \<and>
         (\<forall>i<length ss. \<exists>v. covarianceMatrix ss ! i ! i = Some v \<and> 0 \<le> v) \<and>
         (T < 2 \<longrightarrow>
            covarianceMatrix ss = replicate (length ss) (replicate (length ss) (Some 0)))"
proof (intro conjI allI impI)
  show "length (covarianceMatrix ss) = length ss" by simp
next
  fix i assume "i < length ss"
  then show "length (covarianceMatrix ss ! i) = length ss"
    by (rule length_row_covarianceMatrix)
next
  fix i j assume i: "i < length ss" and j: "j < length ss"
  show "covarianceMatrix ss ! i ! j
          = Some (if T < 2 then 0 else sampleCovariance T (ss ! i) (ss ! j))"
    using assms i j by (rule cov_entry_aligned)
  show "covarianceMatrix ss ! i ! j = covarianceMatrix ss ! j ! i"
    by (simp add: cov_entry [OF i j] cov_entry [OF j i] devSum_commute [of ss _ i j])
next
  fix i assume i: "i < length ss"
  have "0 \<le> devSum ss (periods ss) i i / (real (periods ss) - 1)" if "\<not> periods ss < 2"
    using that devSum_diag_nonneg [of ss "periods ss" i] by simp
  moreover from i have "ss \<noteq> []" by auto
  with assms have "periods ss = T" by (rule periods_aligned)
  moreover from assms i have "length (ss ! i) = T" by simp
  ultimately show "\<exists>v. covarianceMatrix ss ! i ! i = Some v \<and> 0 \<le> v"
    by (simp add: cov_entry [OF i i])
next
  assume T: "T < 2"
  show "covarianceMatrix ss = replicate (length ss) (replicate (length ss) (Some 0))"
  proof (cases "ss = []")
    case True
    then show ?thesis by (simp add: covarianceMatrix_def)
  next
    case False
    with assms have "periods ss = T" by (rule periods_aligned)
    with T show ?thesis
      by (simp add: covarianceMatrix_def Let_def periods_def)
  qed
qed

theorem covariance_correct_witness:
  "list_all (\<lambda>s. length s = 3) [[0, 1, 2], [1, 0, 2 :: real]] \<and>
   covarianceMatrix [[0, 1, 2], [1, 0, 2]] = [[Some 1, Some (1/2)], [Some (1/2), Some 1]] \<and>
   covarianceMatrix [[0, 1, 2], [1, 0, 2]] ! 0 ! 1 = Some (sampleCovariance 3 [0, 1, 2] [1, 0, 2]) \<and>
   sampleCovariance 3 [0, 1, 2] [1, 0, 2] = 1/2 \<and>
   list_all (\<lambda>s. length s = 1) [[5], [7 :: real]] \<and>
   covarianceMatrix [[5], [7]] = [[Some 0, Some 0], [Some 0, Some 0]]"
proof -
  have a3: "\<forall>s\<in>set [[0, 1, 2], [1, 0, 2 :: real]]. length s = 3" by simp
  have a1: "\<forall>s\<in>set [[5], [7 :: real]]. length s = 1" by simp
  from covariance_correct [OF a3] covariance_correct [OF a1]
       cov_example cov_short_example sampleCovariance_example
  show ?thesis by simp
qed

subsection \<open>Correlation\<close>

lemma sdOf_cov:
  assumes a: "a < length ss"
  shows "sdOf (covarianceMatrix ss) a =
           (if 2 \<le> periods ss \<and> periods ss \<le> length (ss ! a)
            then sqrt (max 0 (devSum ss (periods ss) a a / (real (periods ss) - 1)))
            else 0)"
proof -
  have "js_nth (covarianceMatrix ss ! a) a = Some (covarianceMatrix ss ! a ! a)"
    using a by (simp add: js_nth_def length_row_covarianceMatrix)
  then show ?thesis
    using a by (simp add: sdOf_eq cov_entry [OF a a])
qed

lemma corr_of_cov_bounded:
  assumes a: "a < length ss" and b: "b < length ss"
  shows "\<exists>r. correlationFromCov (covarianceMatrix ss) ! a ! b = Some r \<and> - 1 \<le> r \<and> r \<le> 1"
proof -
  let ?C = "covarianceMatrix ss" and ?T = "periods ss"
  define p where "p = devSum ss ?T a a / (real ?T - 1)"
  define q where "q = devSum ss ?T b b / (real ?T - 1)"
  define u where "u = devSum ss ?T a b / (real ?T - 1)"
  have e: "correlationFromCov ?C ! a ! b = corrEntry ?C a b"
    using a b by (simp add: corr_entry)
  have sda: "sdOf ?C a = (if 2 \<le> ?T \<and> ?T \<le> length (ss ! a) then sqrt (max 0 p) else 0)"
    unfolding p_def by (rule sdOf_cov [OF a])
  have sdb: "sdOf ?C b = (if 2 \<le> ?T \<and> ?T \<le> length (ss ! b) then sqrt (max 0 q) else 0)"
    unfolding q_def by (rule sdOf_cov [OF b])
  show ?thesis
  proof (cases "sdOf ?C a * sdOf ?C b > 0")
    case False
    then show ?thesis by (simp add: e corrEntry_def)
  next
    case True
    then have nz: "sdOf ?C a \<noteq> 0" "sdOf ?C b \<noteq> 0" by auto
    from nz(1) have Ta: "2 \<le> ?T" "?T \<le> length (ss ! a)"
      by (auto simp: sda split: if_splits)
    from nz(2) have Tb: "?T \<le> length (ss ! b)"
      by (auto simp: sdb split: if_splits)
    from nz(1) Ta have "max 0 p \<noteq> 0" by (auto simp: sda)
    then have p: "0 < p" by (simp add: max_def split: if_splits)
    from nz(2) Ta Tb have "max 0 q \<noteq> 0" by (auto simp: sdb)
    then have q: "0 < q" by (simp add: max_def split: if_splits)
    have sa: "sdOf ?C a = sqrt p" using Ta p by (simp add: sda max_def)
    have sb: "sdOf ?C b = sqrt q" using Ta Tb q by (simp add: sdb max_def)
    have "u\<^sup>2 = (devSum ss ?T a b)\<^sup>2 / (real ?T - 1)\<^sup>2"
      by (simp add: u_def power_divide)
    also have "\<dots> \<le> (devSum ss ?T a a * devSum ss ?T b b) / (real ?T - 1)\<^sup>2"
      by (intro divide_right_mono devSum_cauchy_schwarz) simp
    also have "\<dots> = p * q" by (simp add: p_def q_def power2_eq_square)
    finally have cs: "u\<^sup>2 \<le> p * q" .
    have "covarianceMatrix ss ! a ! b = Some u"
      using Ta Tb by (simp add: cov_entry [OF a b] u_def)
    then have entry: "js_nth (?C ! a) b = Some (Some u)"
      using a b by (simp add: js_nth_def length_row_covarianceMatrix)
    have "corrEntry ?C a b = Some (u / (sqrt p * sqrt q))"
      using True by (simp add: corrEntry_def entry sa sb)
    with ratio_bound [OF p q cs] e show ?thesis by simp
  qed
qed

lemma corr_of_matrix:
  assumes "length M = n" "\<forall>row\<in>set M. length row = n" "i < n" "j < n"
  shows "correlationFromCov (map (map Some) M) ! i ! j =
           (if 0 < M ! i ! i \<and> 0 < M ! j ! j
            then Some (M ! i ! j / (sqrt (M ! i ! i) * sqrt (M ! j ! j)))
            else Some 0)"
proof -
  let ?C = "map (map Some) M"
  from assms have rows: "length (M ! i) = n" "length (M ! j) = n" by simp_all
  have sd: "sdOf ?C k = sqrt (max 0 (M ! k ! k))" if "k < n" "length (M ! k) = n" for k
    using that assms(1) by (simp add: sdOf_eq js_nth_def)
  have sdi: "sdOf ?C i = sqrt (max 0 (M ! i ! i))" using assms(3) rows(1) by (rule sd)
  have sdj: "sdOf ?C j = sqrt (max 0 (M ! j ! j))" using assms(4) rows(2) by (rule sd)
  have "?C ! i = map Some (M ! i)" using assms by simp
  then have entry: "js_nth (?C ! i) j = Some (Some (M ! i ! j))"
    using assms rows by (simp add: js_nth_def)
  have e: "correlationFromCov ?C ! i ! j = corrEntry ?C i j"
    using assms by (simp add: corr_entry)
  show ?thesis
  proof (cases "0 < M ! i ! i \<and> 0 < M ! j ! j")
    case True
    then have "sdOf ?C i = sqrt (M ! i ! i)" "sdOf ?C j = sqrt (M ! j ! j)"
      by (simp_all add: sdi sdj max_def)
    moreover from True have "0 < sqrt (M ! i ! i) * sqrt (M ! j ! j)" by simp
    ultimately have "corrEntry ?C i j = Some (M ! i ! j / (sqrt (M ! i ! i) * sqrt (M ! j ! j)))"
      unfolding corrEntry_def entry by simp
    with True e show ?thesis by simp
  next
    case False
    then have "sdOf ?C i = 0 \<or> sdOf ?C j = 0"
      by (auto simp: sdi sdj max_def)
    then have "corrEntry ?C i j = Some 0"
      unfolding corrEntry_def by auto
    with False e show ?thesis by auto
  qed
qed


lemma corr_example:
  "correlationFromCov [[Some 1, Some (1/2)], [Some (1/2), Some 1]]
     = [[Some 1, Some (1/2)], [Some (1/2), Some 1]]"
  by (simp add: correlationFromCov_def diagFromCov_def orZero_def js_nth_def mat_set_def
        enumerate_eq_zip upt_rec Let_def)

lemma corr_example_zero:
  "correlationFromCov [[Some 0, Some 3], [Some 3, Some 4]]
     = [[Some 0, Some 0], [Some 0, Some 1]]"
  by (simp add: correlationFromCov_def diagFromCov_def orZero_def js_nth_def mat_set_def
        enumerate_eq_zip upt_rec Let_def)

text \<open>
  Claim C2. For the covariance matrix of any series set, every entry of the correlation
  matrix produced by \<open>correlationFromCov\<close> is a number in \<open>[-1, 1]\<close>. For any square matrix
  of numbers, entry \<open>(i, j)\<close> is \<open>cov(i,j) / (sd(i) * sd(j))\<close> with \<open>sd(k) = sqrt(cov(k,k))\<close>
  when both diagonal entries are positive (the product of the standard deviations is then
  positive), and exactly 0 when a diagonal entry is not positive (a standard deviation is
  then 0).
\<close>

theorem correlation_bounds:
  "(\<forall>i<length ss. \<forall>j<length ss.
      \<exists>r. correlationFromCov (covarianceMatrix ss) ! i ! j = Some r \<and> - 1 \<le> r \<and> r \<le> 1) \<and>
   (length M = n \<and> (\<forall>row\<in>set M. length row = n) \<longrightarrow>
      (\<forall>i<n. \<forall>j<n.
         (0 < M ! i ! i \<and> 0 < M ! j ! j \<longrightarrow>
            correlationFromCov (map (map Some) M) ! i ! j
              = Some (M ! i ! j / (sqrt (M ! i ! i) * sqrt (M ! j ! j)))) \<and>
         (M ! i ! i \<le> 0 \<or> M ! j ! j \<le> 0 \<longrightarrow>
            correlationFromCov (map (map Some) M) ! i ! j = Some 0)))"
proof (intro conjI allI impI)
  fix i j assume "i < length ss" "j < length ss"
  then show "\<exists>r. correlationFromCov (covarianceMatrix ss) ! i ! j = Some r \<and> - 1 \<le> r \<and> r \<le> 1"
    by (rule corr_of_cov_bounded)
next
  fix i j
  assume M: "length M = n \<and> (\<forall>row\<in>set M. length row = n)" and i: "i < n" and j: "j < n"
  then have c: "correlationFromCov (map (map Some) M) ! i ! j =
           (if 0 < M ! i ! i \<and> 0 < M ! j ! j
            then Some (M ! i ! j / (sqrt (M ! i ! i) * sqrt (M ! j ! j)))
            else Some 0)"
    using corr_of_matrix [of M n i j] by blast
  show "correlationFromCov (map (map Some) M) ! i ! j
          = Some (M ! i ! j / (sqrt (M ! i ! i) * sqrt (M ! j ! j)))"
    if "0 < M ! i ! i \<and> 0 < M ! j ! j"
    using that c by simp
  show "correlationFromCov (map (map Some) M) ! i ! j = Some 0"
    if "M ! i ! i \<le> 0 \<or> M ! j ! j \<le> 0"
    using that c by auto
qed

theorem correlation_bounds_witness:
  "correlationFromCov (covarianceMatrix [[0, 1, 2], [1, 0, 2]])
      = [[Some 1, Some (1/2)], [Some (1/2), Some 1]] \<and>
   length [[4, 1], [1, 1 :: real]] = 2 \<and> list_all (\<lambda>row. length row = 2) [[4, 1], [1, 1 :: real]] \<and>
   correlationFromCov (map (map Some) [[4, 1], [1, 1]]) ! 0 ! 1 = Some (1/2) \<and>
   correlationFromCov (map (map Some) [[0, 3], [3, 4]]) ! 0 ! 1 = Some 0"
proof -
  have "correlationFromCov (covarianceMatrix [[0, 1, 2], [1, 0, 2]])
      = [[Some 1, Some (1/2)], [Some (1/2), Some 1]]"
    by (simp only: cov_example corr_example)
  moreover have "correlationFromCov (map (map Some) [[4, 1], [1, 1]]) ! 0 ! 1 = Some (1/2)"
    using correlation_bounds [of "[]" "[[4, 1], [1, 1]]" 2] by simp
  moreover have "correlationFromCov (map (map Some) [[0, 3], [3, 4]]) ! 0 ! 1 = Some 0"
    using correlation_bounds [of "[]" "[[0, 3], [3, 4]]" 2] by simp
  ultimately show ?thesis by simp
qed

section \<open>CSV ingest: proofs\<close>

lemma indexOf_None: "indexOf xs x = None \<longleftrightarrow> x \<notin> set xs"
  by (induction xs) auto

lemma indexOf_Some: "indexOf xs x = Some i \<Longrightarrow> i < length xs \<and> xs ! i = x"
  by (induction xs arbitrary: i) (auto split: if_splits)

lemma fold_valid_rows:
  "fold (\<lambda>line rows. case f line of None \<Rightarrow> rows | Some r \<Rightarrow> rows @ [r]) ls acc
     = acc @ List.map_filter f ls"
  by (induction ls arbitrary: acc) (auto simp: List.map_filter_simps split: option.splits)

lemma validRows_map_filter:
  "validRows toNumber d c ls = List.map_filter (rowOfLine toNumber d c) ls"
  by (simp add: validRows_def fold_valid_rows)

lemma csv_example_short:
  "csvLines ''Date,Close\<newline>2020-01,100'' = [''Date,Close'', ''2020-01,100'']"
  by code_simp

lemma csv_example_header:
  "csvLines ''Date,Open,High,Low,Volume'' = [''Date,Open,High,Low,Volume''] \<and>
   csvHeader [''Date,Open,High,Low,Volume''] = [''date'', ''open'', ''high'', ''low'', ''volume'']"
  by code_simp

lemma csv_example_missing:
  "csvLines ''Date,Open,High,Low,Volume\<newline>a,1,2,3,4\<newline>b,1,2,3,4''
     = [''Date,Open,High,Low,Volume'', ''a,1,2,3,4'', ''b,1,2,3,4'']"
  by code_simp

lemma csv_example_few:
  "csvLines ''DATE, cLose\<newline>a,1\<newline>b,x'' = [''DATE, cLose'', ''a,1'', ''b,x''] \<and>
   csvHeader [''DATE, cLose'', ''a,1'', ''b,x''] = [''date'', ''close''] \<and>
   validRows digitsNumber 0 1 [''a,1'', ''b,x''] = [\<lparr>date = ''a'', close = 1\<rparr>]"
  by code_simp

text \<open>
  Claim C3, as amended. A text with fewer than 3 non-blank lines fails with the too-short
  error, whatever its header and rows. A text with at least 3 non-blank lines whose header
  has no \<open>date\<close> or no \<open>close\<close> cell (after trimming and lowering the case) fails with the
  column-missing error. A text with at least 3 non-blank lines and both columns, of whose
  data lines fewer than 2 are valid (non-empty date, finite close), fails with the
  too-few-records error. In each case the result is an error: no return series is produced.
\<close>

theorem csv_rejections:
  "(length (csvLines csv) < 3 \<longrightarrow>
      parseCsvOhlcvCloseReturns toNumber le csv = Inl TooShort) \<and>
   (3 \<le> length (csvLines csv) \<and>
    (''date'' \<notin> set (csvHeader (csvLines csv)) \<or>
     ''close'' \<notin> set (csvHeader (csvLines csv))) \<longrightarrow>
      parseCsvOhlcvCloseReturns toNumber le csv = Inl MissingColumns) \<and>
   (3 \<le> length (csvLines csv) \<and>
    indexOf (csvHeader (csvLines csv)) ''date'' = Some d \<and>
    indexOf (csvHeader (csvLines csv)) ''close'' = Some c \<and>
    length (validRows toNumber d c (tl (csvLines csv))) < 2 \<longrightarrow>
      parseCsvOhlcvCloseReturns toNumber le csv = Inl TooFewRecords)"
proof (intro conjI impI)
  assume "length (csvLines csv) < 3"
  then show "parseCsvOhlcvCloseReturns toNumber le csv = Inl TooShort"
    by (simp add: parseCsvOhlcvCloseReturns_def)
next
  assume a: "3 \<le> length (csvLines csv) \<and>
    (''date'' \<notin> set (csvHeader (csvLines csv)) \<or>
     ''close'' \<notin> set (csvHeader (csvLines csv)))"
  then have "indexOf (csvHeader (csvLines csv)) ''date'' = None \<or>
             indexOf (csvHeader (csvLines csv)) ''close'' = None"
    by (simp add: indexOf_None)
  with a show "parseCsvOhlcvCloseReturns toNumber le csv = Inl MissingColumns"
    by (auto simp: parseCsvOhlcvCloseReturns_def Let_def split: option.splits)
next
  assume "3 \<le> length (csvLines csv) \<and>
    indexOf (csvHeader (csvLines csv)) ''date'' = Some d \<and>
    indexOf (csvHeader (csvLines csv)) ''close'' = Some c \<and>
    length (validRows toNumber d c (tl (csvLines csv))) < 2"
  then show "parseCsvOhlcvCloseReturns toNumber le csv = Inl TooFewRecords"
    by (simp add: parseCsvOhlcvCloseReturns_def Let_def)
qed

theorem csv_rejections_witness:
  "length (csvLines ''Date,Close\<newline>2020-01,100'') < 3 \<and>
   parseCsvOhlcvCloseReturns digitsNumber codeUnitLe ''Date,Close\<newline>2020-01,100'' = Inl TooShort \<and>
   3 \<le> length (csvLines ''Date,Open,High,Low,Volume\<newline>a,1,2,3,4\<newline>b,1,2,3,4'') \<and>
   ''close'' \<notin> set (csvHeader (csvLines ''Date,Open,High,Low,Volume\<newline>a,1,2,3,4\<newline>b,1,2,3,4'')) \<and>
   parseCsvOhlcvCloseReturns digitsNumber codeUnitLe
      ''Date,Open,High,Low,Volume\<newline>a,1,2,3,4\<newline>b,1,2,3,4'' = Inl MissingColumns \<and>
   3 \<le> length (csvLines ''DATE, cLose\<newline>a,1\<newline>b,x'') \<and>
   indexOf (csvHeader (csvLines ''DATE, cLose\<newline>a,1\<newline>b,x'')) ''date'' = Some 0 \<and>
   indexOf (csvHeader (csvLines ''DATE, cLose\<newline>a,1\<newline>b,x'')) ''close'' = Some 1 \<and>
   length (validRows digitsNumber 0 1 (tl (csvLines ''DATE, cLose\<newline>a,1\<newline>b,x''))) = 1 \<and>
   parseCsvOhlcvCloseReturns digitsNumber codeUnitLe ''DATE, cLose\<newline>a,1\<newline>b,x''
      = Inl TooFewRecords"
proof -
  have h1: "length (csvLines ''Date,Close\<newline>2020-01,100'') < 3"
    by (simp add: csv_example_short)
  have h2: "3 \<le> length (csvLines ''Date,Open,High,Low,Volume\<newline>a,1,2,3,4\<newline>b,1,2,3,4'')"
    by (simp add: csv_example_missing)
  have h2': "''close'' \<notin> set (csvHeader (csvLines ''Date,Open,High,Low,Volume\<newline>a,1,2,3,4\<newline>b,1,2,3,4''))"
    by code_simp
  have h3: "3 \<le> length (csvLines ''DATE, cLose\<newline>a,1\<newline>b,x'')"
    by (simp add: csv_example_few)
  have h3d: "indexOf (csvHeader (csvLines ''DATE, cLose\<newline>a,1\<newline>b,x'')) ''date'' = Some 0"
    by (simp add: csv_example_few)
  have h3c: "indexOf (csvHeader (csvLines ''DATE, cLose\<newline>a,1\<newline>b,x'')) ''close'' = Some 1"
    by (simp add: csv_example_few)
  have l3: "csvLines ''DATE, cLose\<newline>a,1\<newline>b,x'' = [''DATE, cLose'', ''a,1'', ''b,x'']"
    using csv_example_few by blast
  have h3v: "length (validRows digitsNumber 0 1 (tl (csvLines ''DATE, cLose\<newline>a,1\<newline>b,x''))) = 1"
    unfolding l3 by code_simp
  from csv_rejections [where csv = "''Date,Close\<newline>2020-01,100''" and toNumber = digitsNumber
          and le = codeUnitLe and d = 0 and c = 0] h1
  have r1: "parseCsvOhlcvCloseReturns digitsNumber codeUnitLe ''Date,Close\<newline>2020-01,100''
              = Inl TooShort" by blast
  from csv_rejections [where csv = "''Date,Open,High,Low,Volume\<newline>a,1,2,3,4\<newline>b,1,2,3,4''"
          and toNumber = digitsNumber and le = codeUnitLe and d = 0 and c = 0] h2 h2'
  have r2: "parseCsvOhlcvCloseReturns digitsNumber codeUnitLe
      ''Date,Open,High,Low,Volume\<newline>a,1,2,3,4\<newline>b,1,2,3,4'' = Inl MissingColumns" by blast
  from csv_rejections [where csv = "''DATE, cLose\<newline>a,1\<newline>b,x''" and toNumber = digitsNumber
          and le = codeUnitLe and d = 0 and c = 1] h3 h3d h3c h3v
  have r3: "parseCsvOhlcvCloseReturns digitsNumber codeUnitLe ''DATE, cLose\<newline>a,1\<newline>b,x''
      = Inl TooFewRecords" by simp
  from h1 r1 h2 h2' r2 h3 h3d h3c h3v r3 show ?thesis by (intro conjI)
qed

theorem csv_short_input_counterexample:
  "''close'' \<notin> set (csvHeader (csvLines ''Date,Open,High,Low,Volume'')) \<and>
   parseCsvOhlcvCloseReturns digitsNumber codeUnitLe ''Date,Open,High,Low,Volume''
     \<noteq> Inl MissingColumns \<and>
   length (validRows digitsNumber 0 1 (tl (csvLines ''Date,Close\<newline>2020-01,100''))) = 1 \<and>
   parseCsvOhlcvCloseReturns digitsNumber codeUnitLe ''Date,Close\<newline>2020-01,100''
     \<noteq> Inl TooFewRecords"
proof (intro conjI)
  show "''close'' \<notin> set (csvHeader (csvLines ''Date,Open,High,Low,Volume''))"
    by (simp add: csv_example_header)
  show "parseCsvOhlcvCloseReturns digitsNumber codeUnitLe ''Date,Open,High,Low,Volume''
     \<noteq> Inl MissingColumns"
    by (simp add: parseCsvOhlcvCloseReturns_def csv_example_header)
  show "length (validRows digitsNumber 0 1 (tl (csvLines ''Date,Close\<newline>2020-01,100''))) = 1"
    unfolding csv_example_short by code_simp
  show "parseCsvOhlcvCloseReturns digitsNumber codeUnitLe ''Date,Close\<newline>2020-01,100''
     \<noteq> Inl TooFewRecords"
    by (simp add: parseCsvOhlcvCloseReturns_def csv_example_short)
qed

end
